theory Spec2Isabelle
  imports Main "HOL-Library.Multiset"
begin

section \<open>FunctionMaxima: the data model\<close>

text \<open>
  The class template \<open>FunctionMaxima<A, V>\<close> of \<^verbatim>\<open>function_maxima.h\<close> keeps two
  \<open>std::multiset\<close>s of points: \<open>function\<close>, ordered by \<open>comp_by_arg\<close>, and \<open>maxima\<close>,
  ordered by \<open>comp_by_maxima\<close>. A point holds its argument and its value behind shared
  pointers and only ever hands them out as \<open>const &\<close>, so for one object a point is
  modelled by the pair of the two values; the pointers, which copies of an object share,
  are modelled in the section on copies. The operator \<open><\<close> of \<open>A\<close> and of \<open>V\<close> is taken to be a linear
  order.

  A multiset is modelled by the list of its elements in iteration order.
  An \<open>iterator\<close> (into \<open>function\<close>) is the index of its node in that list, \<open>end()\<close> being
  the length of the list. An \<open>mx_iterator\<close> (into \<open>maxima\<close>) is modelled by the point
  its node holds, \<open>mx_end()\<close> being \<open>None\<close>: nodes of \<open>maxima\<close> that hold equal points
  are neighbours in iteration order, so erasing the node of an \<open>mx_iterator\<close> leaves the
  same sequence of points as erasing the first node that holds its point.
\<close>

record ('a, 'v) point =
  arg :: 'a
  "value" :: 'v

record ('a, 'v) FunctionMaxima =
  "function" :: "('a, 'v) point list"
  maxima :: "('a, 'v) point list"

type_synonym iterator = nat

type_synonym ('a, 'v) mx_iterator = "('a, 'v) point option"

text \<open>The exceptions: \<open>InvalidArg\<close>, and whatever a comparison or an allocation
  throws, which the model tags with the call it comes out of.\<close>

datatype origin = Point_constructor | Multiset_call | Comparison | Push_back | Multiset_copy

datatype exn = InvalidArg | Propagated origin

definition comp_by_arg :: "('a::linorder, 'v) point \<Rightarrow> ('a, 'v) point \<Rightarrow> bool" where
  "comp_by_arg p1 p2 \<longleftrightarrow> arg p1 < arg p2"

definition comp_by_maxima :: "('a::linorder, 'v::linorder) point \<Rightarrow> ('a, 'v) point \<Rightarrow> bool" where
  "comp_by_maxima p1 p2 \<longleftrightarrow>
     value p2 < value p1 \<or> (\<not> (value p1 < value p2) \<and> arg p1 < arg p2)"

subsection \<open>The operations of \<open>std::multiset\<close> that the class uses\<close>

text \<open>\<open>function.lower_bound(a)\<close>: the first node whose argument is not less than \<open>a\<close>.\<close>

definition func_lower_bound :: "('a::linorder, 'v) point list \<Rightarrow> 'a \<Rightarrow> iterator" where
  "func_lower_bound f a = length (takeWhile (\<lambda>p. arg p < a) f)"

text \<open>\<open>function.find(a)\<close>, through the transparent comparator: the lower bound, when
  \<open>a\<close> is not less than its argument, and \<open>end()\<close> otherwise.\<close>

definition func_find :: "('a::linorder, 'v) point list \<Rightarrow> 'a \<Rightarrow> iterator" where
  "func_find f a =
     (let i = func_lower_bound f a
      in if i \<noteq> length f \<and> \<not> a < arg (f ! i) then i else length f)"

text \<open>\<open>function.insert(hint, p)\<close> with the lower bound as the hint puts the new node
  right before the hint; \<open>function.erase(it)\<close> unlinks the node at \<open>it\<close>.\<close>

definition func_insert :: "iterator \<Rightarrow> 'p \<Rightarrow> 'p list \<Rightarrow> 'p list" where
  "func_insert hint p f = take hint f @ p # drop hint f"

definition func_erase :: "iterator \<Rightarrow> 'p list \<Rightarrow> 'p list" where
  "func_erase it f = take it f @ drop (Suc it) f"

text \<open>\<open>maxima.insert(p)\<close>: after the last node that does not come after \<open>p\<close> (the
  upper bound).\<close>

fun mx_insert :: "('a::linorder, 'v::linorder) point \<Rightarrow> ('a, 'v) point list \<Rightarrow> ('a, 'v) point list" where
  "mx_insert p [] = [p]"
| "mx_insert p (q # qs) = (if comp_by_maxima p q then p # q # qs else q # mx_insert p qs)"

text \<open>\<open>maxima.find(p)\<close>: the first node that does not come before \<open>p\<close>, when \<open>p\<close> does
  not come before it either.\<close>

definition mx_find :: "('a::linorder, 'v::linorder) point list \<Rightarrow> ('a, 'v) point \<Rightarrow> ('a, 'v) mx_iterator" where
  "mx_find m p =
     (case dropWhile (\<lambda>q. comp_by_maxima q p) m of
        [] \<Rightarrow> None
      | q # _ \<Rightarrow> if comp_by_maxima p q then None else Some q)"

text \<open>\<open>maxima.erase(it)\<close>; the callers test \<open>it != mx_end()\<close> first.\<close>

definition mx_erase :: "('a, 'v) mx_iterator \<Rightarrow> ('a, 'v) point list \<Rightarrow> ('a, 'v) point list" where
  "mx_erase it m = (case it of None \<Rightarrow> m | Some p \<Rightarrow> remove1 p m)"

section \<open>The methods, on executions in which nothing throws\<close>

definition size_fm :: "('a, 'v) FunctionMaxima \<Rightarrow> nat" where
  "size_fm s = length (function s)"

definition begin_fm :: "('a, 'v) FunctionMaxima \<Rightarrow> iterator" where
  "begin_fm s = 0"

definition end_fm :: "('a, 'v) FunctionMaxima \<Rightarrow> iterator" where
  "end_fm s = length (function s)"

definition find_fm :: "('a::linorder, 'v) FunctionMaxima \<Rightarrow> 'a \<Rightarrow> iterator" where
  "find_fm s a = func_find (function s) a"

definition value_at :: "('a::linorder, 'v) FunctionMaxima \<Rightarrow> 'a \<Rightarrow> exn + 'v" where
  "value_at s a =
     (let it = func_find (function s) a
      in if it = end_fm s then Inl InvalidArg else Inr (value (function s ! it)))"

text \<open>\<open>is_local_maximum(it, omit_it)\<close> reads \<open>function\<close> only. \<open>begin()\<close> is index 0
  and \<open>end()\<close> is the length.\<close>

definition is_local_maximum :: "('a, 'v::linorder) point list \<Rightarrow> iterator \<Rightarrow> iterator \<Rightarrow> bool" where
  "is_local_maximum f it omit_it =
     (if it = omit_it then False
      else if it \<noteq> 0 \<and>
              (if it - 1 \<noteq> omit_it then value (f ! it) < value (f ! (it - 1))
               else it - 1 \<noteq> 0 \<and> value (f ! it) < value (f ! (it - 2)))
      then False
      else if Suc it \<noteq> length f \<and>
              (if Suc it \<noteq> omit_it then value (f ! it) < value (f ! Suc it)
               else Suc (Suc it) \<noteq> length f \<and> value (f ! it) < value (f ! Suc (Suc it)))
      then False
      else True)"

text \<open>\<open>stopped_being_maximum(cpy_it, omit_it, rollback)\<close>. The rollback log is read in
  the \<open>catch\<close> blocks only, so on this path it is left out; the model with exceptions
  below keeps it.\<close>

definition stopped_being_maximum ::
  "('a::linorder, 'v::linorder) FunctionMaxima \<Rightarrow> iterator \<Rightarrow> iterator
     \<Rightarrow> ('a, 'v) mx_iterator \<times> ('a, 'v) FunctionMaxima" where
  "stopped_being_maximum s cpy_it omit_it =
     (let res = mx_find (maxima s) (function s ! cpy_it)
      in if is_local_maximum (function s) cpy_it omit_it
         then (if res = None
               then (None, s\<lparr>maxima := mx_insert (function s ! cpy_it) (maxima s)\<rparr>)
               else (None, s))
         else (res, s))"

text \<open>\<open>safe_decrement(it)\<close> returns whether it moved, and the iterator afterwards.\<close>

definition safe_decrement :: "iterator \<Rightarrow> bool \<times> iterator" where
  "safe_decrement it = (if it = 0 then (False, it) else (True, it - 1))"

definition update_maxima ::
  "('a::linorder, 'v::linorder) FunctionMaxima \<Rightarrow> iterator \<Rightarrow> iterator \<Rightarrow> ('a, 'v) FunctionMaxima" where
  "update_maxima s it omit_it =
     (let s1 = (if is_local_maximum (function s) it omit_it
                then s\<lparr>maxima := mx_insert (function s ! it) (maxima s)\<rparr> else s);
          (left, s2) =
            (case safe_decrement it of
               (False, _) \<Rightarrow> (None, s1)
             | (True, cpy_it) \<Rightarrow>
                 if cpy_it \<noteq> omit_it then stopped_being_maximum s1 cpy_it omit_it
                 else (case safe_decrement cpy_it of
                         (False, _) \<Rightarrow> (None, s1)
                       | (True, cpy_it') \<Rightarrow> stopped_being_maximum s1 cpy_it' omit_it));
          (right, s3) =
            (if Suc it \<noteq> length (function s2)
             then (if Suc it \<noteq> omit_it then stopped_being_maximum s2 (Suc it) omit_it
                   else if Suc (Suc it) \<noteq> length (function s2)
                   then stopped_being_maximum s2 (Suc (Suc it)) omit_it
                   else (None, s2))
             else (None, s2));
          s4 = s3\<lparr>maxima := mx_erase left (maxima s3)\<rparr>
      in s4\<lparr>maxima := mx_erase right (maxima s4)\<rparr>)"

definition erase :: "('a::linorder, 'v::linorder) FunctionMaxima \<Rightarrow> 'a \<Rightarrow> ('a, 'v) FunctionMaxima" where
  "erase s a =
     (let it = func_find (function s) a
      in if it = end_fm s then s
         else let max_it = mx_find (maxima s) (function s ! it);
                  s1 = update_maxima s it it;
                  s2 = s1\<lparr>function := func_erase it (function s1)\<rparr>
              in s2\<lparr>maxima := mx_erase max_it (maxima s2)\<rparr>)"

text \<open>In \<open>set_value\<close> the new node goes right before \<open>prev_it\<close>, so from the insertion
  on the node of \<open>prev_it\<close> stands one index further.\<close>

definition set_value ::
  "('a::linorder, 'v::linorder) FunctionMaxima \<Rightarrow> 'a \<Rightarrow> 'v \<Rightarrow> ('a, 'v) FunctionMaxima" where
  "set_value s a v =
     (let new_point = \<lparr>arg = a, value = v\<rparr>;
          prev_it0 = func_lower_bound (function s) a;
          prev_max_it = (if prev_it0 \<noteq> end_fm s
                         then mx_find (maxima s) (function s ! prev_it0) else None);
          s1 = s\<lparr>function := func_insert prev_it0 new_point (function s)\<rparr>;
          it = prev_it0;
          prev_it = Suc prev_it0;
          diff = (prev_it \<noteq> end_fm s1
                  \<and> \<not> comp_by_arg (function s1 ! it) (function s1 ! prev_it));
          s2 = update_maxima s1 it (if diff then prev_it else end_fm s1)
      in if diff
         then let s3 = s2\<lparr>maxima := mx_erase prev_max_it (maxima s2)\<rparr>
              in s3\<lparr>function := func_erase prev_it (function s3)\<rparr>
         else s2)"

definition mx_begin_end :: "('a, 'v) FunctionMaxima \<Rightarrow> ('a, 'v) point list" where
  "mx_begin_end s = maxima s"

definition begin_end :: "('a, 'v) FunctionMaxima \<Rightarrow> ('a, 'v) point list" where
  "begin_end s = function s"

text \<open>The default constructor, and the states that calls of the two mutating
  methods reach from it.\<close>

definition empty_fm :: "('a, 'v) FunctionMaxima" where
  "empty_fm = \<lparr>function = [], maxima = []\<rparr>"

datatype ('a, 'v) call = Set_value 'a 'v | Erase 'a

fun do_call :: "('a::linorder, 'v::linorder) FunctionMaxima \<Rightarrow> ('a, 'v) call \<Rightarrow> ('a, 'v) FunctionMaxima" where
  "do_call s (Set_value a v) = set_value s a v"
| "do_call s (Erase a) = erase s a"

definition run :: "('a::linorder, 'v::linorder) call list \<Rightarrow> ('a, 'v) FunctionMaxima" where
  "run cs = foldl do_call empty_fm cs"


section \<open>The methods, with exceptions\<close>

text \<open>
  A comparison of two arguments or of two values and an allocation may throw. Each call
  that compares or allocates is preceded in the model by \<open>may_throw\<close>, which consumes
  one unit of \<open>fuel\<close> and throws when none is left, naming the call the exception
  comes out of; \<open>fuel = None\<close> is an execution in which nothing throws. The calls of \<open>std::multiset\<close> concerned (\<open>find\<close>,
  \<open>lower_bound\<close>, the insertion of one element) have no effect when they throw, so one
  \<open>may_throw\<close> stands for all comparisons and allocations inside one such call.
  Erasing through an iterator, swapping, and comparing or stepping iterators do not
  throw.

  An execution carries the object \<open>*this\<close>, the vector \<open>maxima_rollback\<close> of the
  running call, and the fuel. When a method throws, the state it leaves is returned
  together with the exception.
\<close>

datatype 'x outcome = Returns 'x | Throws exn

record ('a, 'v) exec =
  this :: "('a, 'v) FunctionMaxima"
  maxima_rollback :: "('a, 'v) mx_iterator list"
  fuel :: "nat option"

type_synonym ('a, 'v, 'x) action = "('a, 'v) exec \<Rightarrow> 'x outcome \<times> ('a, 'v) exec"

definition returns :: "'x \<Rightarrow> ('a, 'v, 'x) action" where
  "returns x e = (Returns x, e)"

definition and_then :: "('a, 'v, 'x) action \<Rightarrow> ('x \<Rightarrow> ('a, 'v, 'y) action) \<Rightarrow> ('a, 'v, 'y) action" where
  "and_then m k e = (case m e of (Returns x, e') \<Rightarrow> k x e' | (Throws x, e') \<Rightarrow> (Throws x, e'))"

definition may_throw :: "origin \<Rightarrow> ('a, 'v, unit) action" where
  "may_throw site e =
     (case fuel e of
        None \<Rightarrow> (Returns (), e)
      | Some 0 \<Rightarrow> (Throws (Propagated site), e\<lparr>fuel := None\<rparr>)
      | Some (Suc n) \<Rightarrow> (Returns (), e\<lparr>fuel := Some n\<rparr>))"

text \<open>\<open>p.value() < q.value()\<close>.\<close>

definition value_less :: "('a, 'v::linorder) point \<Rightarrow> ('a, 'v) point \<Rightarrow> ('a, 'v, bool) action" where
  "value_less p q = and_then (may_throw Comparison) (\<lambda>_. returns (value p < value q))"

text \<open>The calls of the two multisets.\<close>

definition function_lower_bound :: "'a::linorder \<Rightarrow> ('a, 'v, iterator) action" where
  "function_lower_bound a =
     and_then (may_throw Multiset_call) (\<lambda>_ e. (Returns (func_lower_bound (function (this e)) a), e))"

definition function_find :: "'a::linorder \<Rightarrow> ('a, 'v, iterator) action" where
  "function_find a =
     and_then (may_throw Multiset_call) (\<lambda>_ e. (Returns (func_find (function (this e)) a), e))"

definition function_insert :: "iterator \<Rightarrow> ('a, 'v) point \<Rightarrow> ('a, 'v, iterator) action" where
  "function_insert hint p =
     and_then (may_throw Multiset_call)
       (\<lambda>_ e. (Returns hint,
                e\<lparr>this := (this e)\<lparr>function := func_insert hint p (function (this e))\<rparr>\<rparr>))"

definition function_erase :: "iterator \<Rightarrow> ('a, 'v, unit) action" where
  "function_erase it e =
     (Returns (), e\<lparr>this := (this e)\<lparr>function := func_erase it (function (this e))\<rparr>\<rparr>)"

definition maxima_find :: "('a::linorder, 'v::linorder) point \<Rightarrow> ('a, 'v, ('a, 'v) mx_iterator) action" where
  "maxima_find p =
     and_then (may_throw Multiset_call) (\<lambda>_ e. (Returns (mx_find (maxima (this e)) p), e))"

definition maxima_insert :: "('a::linorder, 'v::linorder) point \<Rightarrow> ('a, 'v, ('a, 'v) mx_iterator) action" where
  "maxima_insert p =
     and_then (may_throw Multiset_call)
       (\<lambda>_ e. (Returns (Some p),
                e\<lparr>this := (this e)\<lparr>maxima := mx_insert p (maxima (this e))\<rparr>\<rparr>))"

definition maxima_erase :: "('a, 'v) mx_iterator \<Rightarrow> ('a, 'v, unit) action" where
  "maxima_erase it e =
     (Returns (), e\<lparr>this := (this e)\<lparr>maxima := mx_erase it (maxima (this e))\<rparr>\<rparr>)"

text \<open>\<open>rollback.push_back(new_it)\<close> allocates when the vector grows.\<close>

definition push_back :: "('a, 'v) mx_iterator \<Rightarrow> ('a, 'v, unit) action" where
  "push_back new_it =
     and_then (may_throw Push_back)
       (\<lambda>_ e. (Returns (), e\<lparr>maxima_rollback := maxima_rollback e @ [new_it]\<rparr>))"

text \<open>The constructor of \<open>point\<close> makes two shared objects.\<close>

definition new_point :: "'a \<Rightarrow> 'v \<Rightarrow> ('a, 'v, ('a, 'v) point) action" where
  "new_point a v =
     and_then (may_throw Point_constructor)
       (\<lambda>_. and_then (may_throw Point_constructor) (\<lambda>_. returns \<lparr>arg = a, value = v\<rparr>))"

definition is_local_maximum_exc :: "iterator \<Rightarrow> iterator \<Rightarrow> ('a, 'v::linorder, bool) action" where
  "is_local_maximum_exc it omit_it e =
     (let f = function (this e)
      in if it = omit_it then returns False e
         else and_then
                (if it \<noteq> 0
                 then (if it - 1 \<noteq> omit_it then value_less (f ! it) (f ! (it - 1))
                       else if it - 1 \<noteq> 0 then value_less (f ! it) (f ! (it - 2))
                       else returns False)
                 else returns False)
                (\<lambda>less_than_left.
                   if less_than_left then returns False
                   else and_then
                          (if Suc it \<noteq> length f
                           then (if Suc it \<noteq> omit_it then value_less (f ! it) (f ! Suc it)
                                 else if Suc (Suc it) \<noteq> length f
                                 then value_less (f ! it) (f ! Suc (Suc it))
                                 else returns False)
                           else returns False)
                          (\<lambda>less_than_right. returns (\<not> less_than_right))) e)"

definition stopped_being_maximum_exc ::
  "iterator \<Rightarrow> iterator \<Rightarrow> ('a::linorder, 'v::linorder, ('a, 'v) mx_iterator) action" where
  "stopped_being_maximum_exc cpy_it omit_it e =
     (let p = function (this e) ! cpy_it
      in and_then (maxima_find p)
           (\<lambda>res. and_then (is_local_maximum_exc cpy_it omit_it)
              (\<lambda>b. if b
                    then (if res = None
                          then and_then (maxima_insert p)
                                 (\<lambda>new_it. and_then (push_back new_it) (\<lambda>_. returns None))
                          else returns None)
                    else returns res)) e)"

definition update_maxima_exc :: "iterator \<Rightarrow> iterator \<Rightarrow> ('a::linorder, 'v::linorder, unit) action" where
  "update_maxima_exc it omit_it e =
     (let f = function (this e)
      in and_then (is_local_maximum_exc it omit_it)
           (\<lambda>b. and_then
                   (if b then and_then (maxima_insert (f ! it)) push_back else returns ())
              (\<lambda>_. and_then
                   (case safe_decrement it of
                      (False, _) \<Rightarrow> returns None
                    | (True, cpy_it) \<Rightarrow>
                        if cpy_it \<noteq> omit_it then stopped_being_maximum_exc cpy_it omit_it
                        else (case safe_decrement cpy_it of
                                (False, _) \<Rightarrow> returns None
                              | (True, cpy_it') \<Rightarrow> stopped_being_maximum_exc cpy_it' omit_it))
              (\<lambda>left. and_then
                   (if Suc it \<noteq> length f
                    then (if Suc it \<noteq> omit_it then stopped_being_maximum_exc (Suc it) omit_it
                          else if Suc (Suc it) \<noteq> length f
                          then stopped_being_maximum_exc (Suc (Suc it)) omit_it
                          else returns None)
                    else returns None)
              (\<lambda>right. and_then (maxima_erase left) (\<lambda>_. maxima_erase right))))) e)"

text \<open>The loop of the two \<open>catch\<close> blocks.\<close>

fun erase_rollback :: "('a, 'v) mx_iterator list \<Rightarrow> ('a, 'v) point list \<Rightarrow> ('a, 'v) point list" where
  "erase_rollback [] m = m"
| "erase_rollback (iter # iters) m = erase_rollback iters (mx_erase iter m)"

definition value_at_exc :: "'a::linorder \<Rightarrow> ('a, 'v, 'v) action" where
  "value_at_exc a =
     and_then (function_find a)
       (\<lambda>it e. if it = end_fm (this e) then (Throws InvalidArg, e)
               else (Returns (value (function (this e) ! it)), e))"

text \<open>\<open>erase\<close>: the \<open>try\<close> block returns \<open>None\<close> for the early \<open>return\<close>.\<close>

definition erase_try ::
  "'a::linorder \<Rightarrow> ('a, 'v::linorder, (iterator \<times> ('a, 'v) mx_iterator) option) action" where
  "erase_try a =
     and_then (function_find a)
       (\<lambda>it e. if it = end_fm (this e) then returns None e
               else and_then (maxima_find (function (this e) ! it))
                      (\<lambda>max_it. and_then (update_maxima_exc it it)
                         (\<lambda>_. returns (Some (it, max_it)))) e)"

definition erase_exc :: "'a::linorder \<Rightarrow> ('a, 'v::linorder, unit) action" where
  "erase_exc a e0 =
     (case erase_try a (e0\<lparr>maxima_rollback := []\<rparr>) of
        (Throws x, e) \<Rightarrow>
          (Throws x,
           e\<lparr>this := (this e)\<lparr>maxima := erase_rollback (maxima_rollback e) (maxima (this e))\<rparr>\<rparr>)
      | (Returns None, e) \<Rightarrow> (Returns (), e)
      | (Returns (Some (it, max_it)), e) \<Rightarrow>
          and_then (function_erase it) (\<lambda>_. maxima_erase max_it) e)"

text \<open>\<open>set_value\<close>: the \<open>try\<close> block in two parts, up to the assignment to \<open>it\<close>
  and after it, because the \<open>catch\<close> block tests \<open>it != end()\<close>. The first part returns
  \<open>it\<close>, \<open>prev_it\<close> (one index further once the new node stands before it) and
  \<open>prev_max_it\<close>; the second returns \<open>diff\<close>.\<close>

definition set_value_try1 ::
  "'a::linorder \<Rightarrow> 'v::linorder
     \<Rightarrow> ('a, 'v, iterator \<times> iterator \<times> bool \<times> ('a, 'v) mx_iterator) action" where
  "set_value_try1 a v =
     and_then (new_point a v)
       (\<lambda>new_point. and_then (function_lower_bound a)
          (\<lambda>prev_it e.
             (let at_end = (prev_it = end_fm (this e))
              in and_then (if \<not> at_end then maxima_find (function (this e) ! prev_it)
                           else returns None)
                   (\<lambda>prev_max_it. and_then (function_insert prev_it new_point)
                      (\<lambda>it. returns (it, Suc prev_it, at_end, prev_max_it))) e)))"

definition set_value_try2 :: "iterator \<Rightarrow> iterator \<Rightarrow> bool \<Rightarrow> ('a::linorder, 'v::linorder, bool) action" where
  "set_value_try2 it prev_it at_end e =
     (let f = function (this e)
      in and_then
           (if \<not> at_end
            then and_then (may_throw Comparison) (\<lambda>_. returns (\<not> comp_by_arg (f ! it) (f ! prev_it)))
            else returns False)
           (\<lambda>diff. and_then (update_maxima_exc it (if diff then prev_it else length f))
              (\<lambda>_. returns diff)) e)"

definition set_value_catch :: "iterator option \<Rightarrow> ('a, 'v) exec \<Rightarrow> ('a, 'v) exec" where
  "set_value_catch it e =
     (let m = erase_rollback (maxima_rollback e) (maxima (this e));
          f = (case it of None \<Rightarrow> function (this e)
               | Some i \<Rightarrow> func_erase i (function (this e)))
      in e\<lparr>this := \<lparr>function = f, maxima = m\<rparr>\<rparr>)"

definition set_value_exc :: "'a::linorder \<Rightarrow> 'v::linorder \<Rightarrow> ('a, 'v, unit) action" where
  "set_value_exc a v e0 =
     (case set_value_try1 a v (e0\<lparr>maxima_rollback := []\<rparr>) of
        (Throws x, e) \<Rightarrow> (Throws x, set_value_catch None e)
      | (Returns (it, prev_it, at_end, prev_max_it), e) \<Rightarrow>
          (case set_value_try2 it prev_it at_end e of
             (Throws x, e') \<Rightarrow> (Throws x, set_value_catch (Some it) e')
           | (Returns diff, e') \<Rightarrow>
               (if diff
                then and_then (maxima_erase prev_max_it) (\<lambda>_. function_erase prev_it) e'
                else (Returns (), e'))))"

definition start :: "('a, 'v) FunctionMaxima \<Rightarrow> nat option \<Rightarrow> ('a, 'v) exec" where
  "start s k = \<lparr>this = s, maxima_rollback = [], fuel = k\<rparr>"

section \<open>Points behind shared pointers, and copies\<close>

text \<open>
  The class \<open>point\<close> holds \<open>std::shared_ptr<A> _arg\<close> and \<open>std::shared_ptr<V> _value\<close>. Its
  constructor allocates the two objects with \<open>make_shared\<close>; its copy constructor is the
  implicit one and copies the two pointers, so that a point and its copies refer to the
  same two objects; \<open>arg()\<close> and \<open>value()\<close> read the objects. Here a point is the pair of
  its two pointers, and the heap holds the objects of type \<open>A\<close> and those of type \<open>V\<close>
  allocated so far, a pointer being the index of its object. No object is taken off the
  heap: C++ destroys one when the last point that refers to it goes, after which nothing
  can read it.
\<close>

record shared_point =
  arg_ptr :: nat
  value_ptr :: nat

record ('a, 'v) heap =
  arg_cells :: "'a list"
  value_cells :: "'v list"

text \<open>\<open>point::arg()\<close> and \<open>point::value()\<close>.\<close>

definition arg_of :: "('a, 'v) heap \<Rightarrow> shared_point \<Rightarrow> 'a" where
  "arg_of h p = arg_cells h ! arg_ptr p"

definition value_of :: "('a, 'v) heap \<Rightarrow> shared_point \<Rightarrow> 'v" where
  "value_of h p = value_cells h ! value_ptr p"

text \<open>The constructor \<open>point(a, v)\<close>: two calls of \<open>make_shared\<close>.\<close>

definition make_point :: "'a \<Rightarrow> 'v \<Rightarrow> ('a, 'v) heap \<Rightarrow> shared_point \<times> ('a, 'v) heap" where
  "make_point a v h =
     (\<lparr>arg_ptr = length (arg_cells h), value_ptr = length (value_cells h)\<rparr>,
      \<lparr>arg_cells = arg_cells h @ [a], value_cells = value_cells h @ [v]\<rparr>)"

text \<open>An object of the class: its two multisets of points, in iteration order. An
  \<open>mx_iterator\<close> is modelled by the point (the two pointers) that its node holds.\<close>

record shared_FunctionMaxima =
  function_sh :: "shared_point list"
  maxima_sh :: "shared_point list"

type_synonym mx_iterator_sh = "shared_point option"

text \<open>The comparators and the multiset operations read the arguments and the values
  through the pointers.\<close>

definition comp_by_arg_sh :: "('a::linorder, 'v) heap \<Rightarrow> shared_point \<Rightarrow> shared_point \<Rightarrow> bool" where
  "comp_by_arg_sh h p1 p2 \<longleftrightarrow> arg_of h p1 < arg_of h p2"

definition comp_by_maxima_sh ::
  "('a::linorder, 'v::linorder) heap \<Rightarrow> shared_point \<Rightarrow> shared_point \<Rightarrow> bool" where
  "comp_by_maxima_sh h p1 p2 \<longleftrightarrow>
     value_of h p2 < value_of h p1
     \<or> (\<not> (value_of h p1 < value_of h p2) \<and> arg_of h p1 < arg_of h p2)"

definition func_lower_bound_sh :: "('a::linorder, 'v) heap \<Rightarrow> shared_point list \<Rightarrow> 'a \<Rightarrow> iterator" where
  "func_lower_bound_sh h f a = length (takeWhile (\<lambda>p. arg_of h p < a) f)"

definition func_find_sh :: "('a::linorder, 'v) heap \<Rightarrow> shared_point list \<Rightarrow> 'a \<Rightarrow> iterator" where
  "func_find_sh h f a =
     (let i = func_lower_bound_sh h f a
      in if i \<noteq> length f \<and> \<not> a < arg_of h (f ! i) then i else length f)"

fun mx_insert_sh ::
  "('a::linorder, 'v::linorder) heap \<Rightarrow> shared_point \<Rightarrow> shared_point list \<Rightarrow> shared_point list" where
  "mx_insert_sh h p [] = [p]"
| "mx_insert_sh h p (q # qs) =
     (if comp_by_maxima_sh h p q then p # q # qs else q # mx_insert_sh h p qs)"

definition mx_find_sh ::
  "('a::linorder, 'v::linorder) heap \<Rightarrow> shared_point list \<Rightarrow> shared_point \<Rightarrow> mx_iterator_sh" where
  "mx_find_sh h m p =
     (case dropWhile (\<lambda>q. comp_by_maxima_sh h q p) m of
        [] \<Rightarrow> None
      | q # _ \<Rightarrow> if comp_by_maxima_sh h p q then None else Some q)"

definition mx_erase_sh :: "mx_iterator_sh \<Rightarrow> shared_point list \<Rightarrow> shared_point list" where
  "mx_erase_sh it m = (case it of None \<Rightarrow> m | Some p \<Rightarrow> remove1 p m)"

text \<open>
  The methods, on points behind pointers, with exceptions as above: an execution carries
  the heap, the object \<open>*this\<close>, the vector \<open>maxima_rollback\<close> of the running call and the
  fuel, and \<open>may_throw_sh\<close> precedes each call that compares or allocates. The
  constructor of \<open>point\<close> is the only allocation of objects of type \<open>A\<close> and \<open>V\<close> in the
  class; when it throws, no object of its stays.
\<close>

record ('a, 'v) exec_sh =
  heap_sh :: "('a, 'v) heap"
  this_sh :: shared_FunctionMaxima
  maxima_rollback_sh :: "mx_iterator_sh list"
  fuel_sh :: "nat option"

type_synonym ('a, 'v, 'x) action_sh = "('a, 'v) exec_sh \<Rightarrow> 'x outcome \<times> ('a, 'v) exec_sh"

definition returns_sh :: "'x \<Rightarrow> ('a, 'v, 'x) action_sh" where
  "returns_sh x e = (Returns x, e)"

definition and_then_sh ::
  "('a, 'v, 'x) action_sh \<Rightarrow> ('x \<Rightarrow> ('a, 'v, 'y) action_sh) \<Rightarrow> ('a, 'v, 'y) action_sh" where
  "and_then_sh m k e =
     (case m e of (Returns x, e') \<Rightarrow> k x e' | (Throws x, e') \<Rightarrow> (Throws x, e'))"

definition may_throw_sh :: "origin \<Rightarrow> ('a, 'v, unit) action_sh" where
  "may_throw_sh site e =
     (case fuel_sh e of
        None \<Rightarrow> (Returns (), e)
      | Some 0 \<Rightarrow> (Throws (Propagated site), e\<lparr>fuel_sh := None\<rparr>)
      | Some (Suc n) \<Rightarrow> (Returns (), e\<lparr>fuel_sh := Some n\<rparr>))"

text \<open>\<open>p.value() < q.value()\<close>, and the calls of the two multisets.\<close>

definition value_less_sh :: "shared_point \<Rightarrow> shared_point \<Rightarrow> ('a, 'v::linorder, bool) action_sh" where
  "value_less_sh p q =
     and_then_sh (may_throw_sh Comparison)
       (\<lambda>_ e. (Returns (value_of (heap_sh e) p < value_of (heap_sh e) q), e))"

definition function_lower_bound_sh :: "'a::linorder \<Rightarrow> ('a, 'v, iterator) action_sh" where
  "function_lower_bound_sh a =
     and_then_sh (may_throw_sh Multiset_call)
       (\<lambda>_ e. (Returns (func_lower_bound_sh (heap_sh e) (function_sh (this_sh e)) a), e))"

definition function_find_sh :: "'a::linorder \<Rightarrow> ('a, 'v, iterator) action_sh" where
  "function_find_sh a =
     and_then_sh (may_throw_sh Multiset_call)
       (\<lambda>_ e. (Returns (func_find_sh (heap_sh e) (function_sh (this_sh e)) a), e))"

definition function_insert_sh :: "iterator \<Rightarrow> shared_point \<Rightarrow> ('a, 'v, iterator) action_sh" where
  "function_insert_sh hint p =
     and_then_sh (may_throw_sh Multiset_call)
       (\<lambda>_ e. (Returns hint,
                e\<lparr>this_sh := (this_sh e)\<lparr>function_sh := func_insert hint p (function_sh (this_sh e))\<rparr>\<rparr>))"

definition function_erase_sh :: "iterator \<Rightarrow> ('a, 'v, unit) action_sh" where
  "function_erase_sh it e =
     (Returns (), e\<lparr>this_sh := (this_sh e)\<lparr>function_sh := func_erase it (function_sh (this_sh e))\<rparr>\<rparr>)"

definition maxima_find_sh :: "shared_point \<Rightarrow> ('a::linorder, 'v::linorder, mx_iterator_sh) action_sh" where
  "maxima_find_sh p =
     and_then_sh (may_throw_sh Multiset_call)
       (\<lambda>_ e. (Returns (mx_find_sh (heap_sh e) (maxima_sh (this_sh e)) p), e))"

definition maxima_insert_sh :: "shared_point \<Rightarrow> ('a::linorder, 'v::linorder, mx_iterator_sh) action_sh" where
  "maxima_insert_sh p =
     and_then_sh (may_throw_sh Multiset_call)
       (\<lambda>_ e. (Returns (Some p),
                e\<lparr>this_sh := (this_sh e)\<lparr>maxima_sh := mx_insert_sh (heap_sh e) p (maxima_sh (this_sh e))\<rparr>\<rparr>))"

definition maxima_erase_sh :: "mx_iterator_sh \<Rightarrow> ('a, 'v, unit) action_sh" where
  "maxima_erase_sh it e =
     (Returns (), e\<lparr>this_sh := (this_sh e)\<lparr>maxima_sh := mx_erase_sh it (maxima_sh (this_sh e))\<rparr>\<rparr>)"

text \<open>\<open>rollback.push_back(new_it)\<close>, and the constructor of \<open>point\<close>, which puts the two
  objects on the heap.\<close>

definition push_back_sh :: "mx_iterator_sh \<Rightarrow> ('a, 'v, unit) action_sh" where
  "push_back_sh new_it =
     and_then_sh (may_throw_sh Push_back)
       (\<lambda>_ e. (Returns (), e\<lparr>maxima_rollback_sh := maxima_rollback_sh e @ [new_it]\<rparr>))"

definition new_point_sh :: "'a \<Rightarrow> 'v \<Rightarrow> ('a, 'v, shared_point) action_sh" where
  "new_point_sh a v =
     and_then_sh (may_throw_sh Point_constructor)
       (\<lambda>_. and_then_sh (may_throw_sh Point_constructor)
          (\<lambda>_ e. (Returns (fst (make_point a v (heap_sh e))),
                   e\<lparr>heap_sh := snd (make_point a v (heap_sh e))\<rparr>)))"

text \<open>The private methods.\<close>

definition is_local_maximum_exc_sh :: "iterator \<Rightarrow> iterator \<Rightarrow> ('a, 'v::linorder, bool) action_sh" where
  "is_local_maximum_exc_sh it omit_it e =
     (let f = function_sh (this_sh e)
      in if it = omit_it then returns_sh False e
         else and_then_sh
                (if it \<noteq> 0
                 then (if it - 1 \<noteq> omit_it then value_less_sh (f ! it) (f ! (it - 1))
                       else if it - 1 \<noteq> 0 then value_less_sh (f ! it) (f ! (it - 2))
                       else returns_sh False)
                 else returns_sh False)
                (\<lambda>less_than_left.
                   if less_than_left then returns_sh False
                   else and_then_sh
                          (if Suc it \<noteq> length f
                           then (if Suc it \<noteq> omit_it then value_less_sh (f ! it) (f ! Suc it)
                                 else if Suc (Suc it) \<noteq> length f
                                 then value_less_sh (f ! it) (f ! Suc (Suc it))
                                 else returns_sh False)
                           else returns_sh False)
                          (\<lambda>less_than_right. returns_sh (\<not> less_than_right))) e)"

definition stopped_being_maximum_exc_sh ::
  "iterator \<Rightarrow> iterator \<Rightarrow> ('a::linorder, 'v::linorder, mx_iterator_sh) action_sh" where
  "stopped_being_maximum_exc_sh cpy_it omit_it e =
     (let p = function_sh (this_sh e) ! cpy_it
      in and_then_sh (maxima_find_sh p)
           (\<lambda>res. and_then_sh (is_local_maximum_exc_sh cpy_it omit_it)
              (\<lambda>b. if b
                    then (if res = None
                          then and_then_sh (maxima_insert_sh p)
                                 (\<lambda>new_it. and_then_sh (push_back_sh new_it) (\<lambda>_. returns_sh None))
                          else returns_sh None)
                    else returns_sh res)) e)"

definition update_maxima_exc_sh :: "iterator \<Rightarrow> iterator \<Rightarrow> ('a::linorder, 'v::linorder, unit) action_sh" where
  "update_maxima_exc_sh it omit_it e =
     (let f = function_sh (this_sh e)
      in and_then_sh (is_local_maximum_exc_sh it omit_it)
           (\<lambda>b. and_then_sh
                   (if b then and_then_sh (maxima_insert_sh (f ! it)) push_back_sh else returns_sh ())
              (\<lambda>_. and_then_sh
                   (case safe_decrement it of
                      (False, _) \<Rightarrow> returns_sh None
                    | (True, cpy_it) \<Rightarrow>
                        if cpy_it \<noteq> omit_it then stopped_being_maximum_exc_sh cpy_it omit_it
                        else (case safe_decrement cpy_it of
                                (False, _) \<Rightarrow> returns_sh None
                              | (True, cpy_it') \<Rightarrow> stopped_being_maximum_exc_sh cpy_it' omit_it))
              (\<lambda>left. and_then_sh
                   (if Suc it \<noteq> length f
                    then (if Suc it \<noteq> omit_it then stopped_being_maximum_exc_sh (Suc it) omit_it
                          else if Suc (Suc it) \<noteq> length f
                          then stopped_being_maximum_exc_sh (Suc (Suc it)) omit_it
                          else returns_sh None)
                    else returns_sh None)
              (\<lambda>right. and_then_sh (maxima_erase_sh left) (\<lambda>_. maxima_erase_sh right))))) e)"

text \<open>The loop of the two \<open>catch\<close> blocks, \<open>erase\<close> and \<open>set_value\<close>.\<close>

fun erase_rollback_sh :: "mx_iterator_sh list \<Rightarrow> shared_point list \<Rightarrow> shared_point list" where
  "erase_rollback_sh [] m = m"
| "erase_rollback_sh (iter # iters) m = erase_rollback_sh iters (mx_erase_sh iter m)"

definition erase_try_sh ::
  "'a::linorder \<Rightarrow> ('a, 'v::linorder, (iterator \<times> mx_iterator_sh) option) action_sh" where
  "erase_try_sh a =
     and_then_sh (function_find_sh a)
       (\<lambda>it e. if it = length (function_sh (this_sh e)) then returns_sh None e
               else and_then_sh (maxima_find_sh (function_sh (this_sh e) ! it))
                      (\<lambda>max_it. and_then_sh (update_maxima_exc_sh it it)
                         (\<lambda>_. returns_sh (Some (it, max_it)))) e)"

definition erase_exc_sh :: "'a::linorder \<Rightarrow> ('a, 'v::linorder, unit) action_sh" where
  "erase_exc_sh a e0 =
     (case erase_try_sh a (e0\<lparr>maxima_rollback_sh := []\<rparr>) of
        (Throws x, e) \<Rightarrow>
          (Throws x,
           e\<lparr>this_sh := (this_sh e)
                \<lparr>maxima_sh := erase_rollback_sh (maxima_rollback_sh e) (maxima_sh (this_sh e))\<rparr>\<rparr>)
      | (Returns None, e) \<Rightarrow> (Returns (), e)
      | (Returns (Some (it, max_it)), e) \<Rightarrow>
          and_then_sh (function_erase_sh it) (\<lambda>_. maxima_erase_sh max_it) e)"

definition set_value_try1_sh ::
  "'a::linorder \<Rightarrow> 'v::linorder
     \<Rightarrow> ('a, 'v, iterator \<times> iterator \<times> bool \<times> mx_iterator_sh) action_sh" where
  "set_value_try1_sh a v =
     and_then_sh (new_point_sh a v)
       (\<lambda>new_point. and_then_sh (function_lower_bound_sh a)
          (\<lambda>prev_it e.
             (let at_end = (prev_it = length (function_sh (this_sh e)))
              in and_then_sh (if \<not> at_end then maxima_find_sh (function_sh (this_sh e) ! prev_it)
                           else returns_sh None)
                   (\<lambda>prev_max_it. and_then_sh (function_insert_sh prev_it new_point)
                      (\<lambda>it. returns_sh (it, Suc prev_it, at_end, prev_max_it))) e)))"

definition set_value_try2_sh ::
  "iterator \<Rightarrow> iterator \<Rightarrow> bool \<Rightarrow> ('a::linorder, 'v::linorder, bool) action_sh" where
  "set_value_try2_sh it prev_it at_end e =
     (let f = function_sh (this_sh e)
      in and_then_sh
           (if \<not> at_end
            then and_then_sh (may_throw_sh Comparison)
                   (\<lambda>_ e'. (Returns (\<not> comp_by_arg_sh (heap_sh e') (f ! it) (f ! prev_it)), e'))
            else returns_sh False)
           (\<lambda>diff. and_then_sh (update_maxima_exc_sh it (if diff then prev_it else length f))
              (\<lambda>_. returns_sh diff)) e)"

definition set_value_catch_sh :: "iterator option \<Rightarrow> ('a, 'v) exec_sh \<Rightarrow> ('a, 'v) exec_sh" where
  "set_value_catch_sh it e =
     (let m = erase_rollback_sh (maxima_rollback_sh e) (maxima_sh (this_sh e));
          f = (case it of None \<Rightarrow> function_sh (this_sh e)
               | Some i \<Rightarrow> func_erase i (function_sh (this_sh e)))
      in e\<lparr>this_sh := \<lparr>function_sh = f, maxima_sh = m\<rparr>\<rparr>)"

definition set_value_exc_sh :: "'a::linorder \<Rightarrow> 'v::linorder \<Rightarrow> ('a, 'v, unit) action_sh" where
  "set_value_exc_sh a v e0 =
     (case set_value_try1_sh a v (e0\<lparr>maxima_rollback_sh := []\<rparr>) of
        (Throws x, e) \<Rightarrow> (Throws x, set_value_catch_sh None e)
      | (Returns (it, prev_it, at_end, prev_max_it), e) \<Rightarrow>
          (case set_value_try2_sh it prev_it at_end e of
             (Throws x, e') \<Rightarrow> (Throws x, set_value_catch_sh (Some it) e')
           | (Returns diff, e') \<Rightarrow>
               (if diff
                then and_then_sh (maxima_erase_sh prev_max_it) (\<lambda>_. function_erase_sh prev_it) e'
                else (Returns (), e'))))"

text \<open>The objects of the class live at addresses, over one heap.\<close>

record ('a, 'v) world =
  heap :: "('a, 'v) heap"
  objects :: "nat \<Rightarrow> shared_FunctionMaxima"

text \<open>What the public interface shows of the object at an address: the points of
  the two listings as \<open>arg()\<close> and \<open>value()\<close> give them; \<open>size()\<close> and \<open>value_at\<close> are
  functions of the first listing.\<close>

definition point_of :: "('a, 'v) heap \<Rightarrow> shared_point \<Rightarrow> ('a, 'v) point" where
  "point_of h p = \<lparr>arg = arg_of h p, value = value_of h p\<rparr>"

definition observe :: "('a, 'v) world \<Rightarrow> nat \<Rightarrow> ('a, 'v) FunctionMaxima" where
  "observe w p =
     \<lparr>function = map (point_of (heap w)) (function_sh (objects w p)),
      maxima = map (point_of (heap w)) (maxima_sh (objects w p))\<rparr>"

definition empty_world :: "('a, 'v) world" where
  "empty_world =
     \<lparr>heap = \<lparr>arg_cells = [], value_cells = []\<rparr>,
      objects = (\<lambda>_. \<lparr>function_sh = [], maxima_sh = []\<rparr>)\<rparr>"

text \<open>A call of a mutating method on the object at address \<open>p\<close>, with the fuel that
  says which of its operations throws, if any. However the call ends, the heap and the
  object are as the call leaves them.\<close>

definition start_sh :: "('a, 'v) world \<Rightarrow> nat \<Rightarrow> nat option \<Rightarrow> ('a, 'v) exec_sh" where
  "start_sh w p k =
     \<lparr>heap_sh = heap w, this_sh = objects w p, maxima_rollback_sh = [], fuel_sh = k\<rparr>"

fun call_exc :: "('a::linorder, 'v::linorder) call \<Rightarrow> ('a, 'v, unit) action_sh" where
  "call_exc (Set_value a v) = set_value_exc_sh a v"
| "call_exc (Erase a) = erase_exc_sh a"

definition call_on ::
  "nat \<Rightarrow> ('a::linorder, 'v::linorder) world \<Rightarrow> ('a, 'v) call \<times> nat option \<Rightarrow> ('a, 'v) world" where
  "call_on p w ck =
     (let e = snd (call_exc (fst ck) (start_sh w p (snd ck)))
      in \<lparr>heap = heap_sh e, objects = (objects w)(p := this_sh e)\<rparr>)"

definition calls_on ::
  "nat \<Rightarrow> (('a::linorder, 'v::linorder) call \<times> nat option) list \<Rightarrow> ('a, 'v) world
     \<Rightarrow> ('a, 'v) world" where
  "calls_on p cks w = foldl (call_on p) w cks"

text \<open>Copying. The defaulted copy constructor copies \<open>function\<close> and then \<open>maxima\<close>;
  each copy allocates the nodes of a new multiset and may throw, and copies the points,
  that is, their pointers: the copy shares the objects on the heap with the source. A
  copy-constructed object is a new object, at an address of its own.\<close>

definition construct_copy_at ::
  "nat \<Rightarrow> nat \<Rightarrow> nat option \<Rightarrow> ('a, 'v) world \<Rightarrow> unit outcome \<times> ('a, 'v) world" where
  "construct_copy_at new_p fun_p k w =
     (case k of
        Some 0 \<Rightarrow> (Throws (Propagated Multiset_copy), w)
      | Some (Suc 0) \<Rightarrow> (Throws (Propagated Multiset_copy), w)
      | _ \<Rightarrow>
          (Returns (),
           w\<lparr>objects := (objects w)
                (new_p := \<lparr>function_sh = function_sh (objects w fun_p),
                           maxima_sh = maxima_sh (objects w fun_p)\<rparr>)\<rparr>))"

text \<open>\<open>operator=\<close> compares the two addresses, copies the two multisets of \<open>fun\<close> into
  temporaries (either copy may throw), and then swaps them into \<open>*this\<close>.\<close>

definition assign ::
  "nat \<Rightarrow> nat \<Rightarrow> nat option \<Rightarrow> ('a, 'v) world \<Rightarrow> unit outcome \<times> ('a, 'v) world" where
  "assign this_p fun_p k w =
     (if this_p \<noteq> fun_p
      then (case k of
              Some 0 \<Rightarrow> (Throws (Propagated Multiset_copy), w)
            | Some (Suc 0) \<Rightarrow> (Throws (Propagated Multiset_copy), w)
            | _ \<Rightarrow>
                (let temp_fun = function_sh (objects w fun_p);
                     temp_max = maxima_sh (objects w fun_p);
                     w1 = w\<lparr>objects := (objects w)
                            (this_p := (objects w this_p)\<lparr>function_sh := temp_fun\<rparr>)\<rparr>;
                     w2 = w1\<lparr>objects := (objects w1)
                            (this_p := (objects w1 this_p)\<lparr>maxima_sh := temp_max\<rparr>)\<rparr>
                 in (Returns (), w2)))
      else (Returns (), w))"

section \<open>Notions used to state and prove the properties\<close>

text \<open>The non-strict order that goes with \<open>comp_by_maxima\<close>.\<close>

definition mx_le :: "('a::linorder, 'v::linorder) point \<Rightarrow> ('a, 'v) point \<Rightarrow> bool" where
  "mx_le p q \<longleftrightarrow> \<not> comp_by_maxima q p"

text \<open>The two neighbours that \<open>update_maxima\<close> visits: the node before \<open>it\<close>, or the
  one before that when the first is \<open>omit_it\<close>, and likewise after \<open>it\<close>.\<close>

definition left_of :: "iterator \<Rightarrow> iterator \<Rightarrow> iterator option" where
  "left_of it omit_it =
     (if it = 0 then None
      else if it - 1 \<noteq> omit_it then Some (it - 1)
      else if it - 1 = 0 then None else Some (it - 2))"

definition right_of :: "nat \<Rightarrow> iterator \<Rightarrow> iterator \<Rightarrow> iterator option" where
  "right_of n it omit_it =
     (if Suc it = n then None
      else if Suc it \<noteq> omit_it then Some (Suc it)
      else if Suc (Suc it) = n then None else Some (Suc (Suc it)))"

text \<open>What \<open>stopped_being_maximum\<close> and the erasure that follows it do to the
  multiset of registered maxima: a point that is a local maximum is registered if it
  was not, and one registration of a point that is none is dropped.\<close>

definition settle :: "bool \<Rightarrow> 'p \<Rightarrow> 'p multiset \<Rightarrow> 'p multiset" where
  "settle b x M = (if b then (if x \<in># M then M else add_mset x M) else M - {#x#})"

text \<open>The local maxima of a point store, in argument order: the points at which
  \<open>is_local_maximum\<close> holds when no node is omitted (\<open>omit_it = end()\<close>).\<close>

definition local_maxima :: "('a, 'v::linorder) point list \<Rightarrow> ('a, 'v) point list" where
  "local_maxima f =
     map (\<lambda>i. f ! i) (filter (\<lambda>i. is_local_maximum f i (length f)) [0..<length f])"

text \<open>The class invariant: the store is strictly ascending in the argument, the index
  is ordered by \<open>comp_by_maxima\<close>, and the index holds each local maximum of the store
  once and nothing else.\<close>

definition invariant :: "('a::linorder, 'v::linorder) FunctionMaxima \<Rightarrow> bool" where
  "invariant s \<longleftrightarrow>
     sorted_wrt comp_by_arg (function s) \<and> sorted_wrt mx_le (maxima s)
     \<and> mset (maxima s) = mset (local_maxima (function s))"

text \<open>The argument \<open>a\<close> is in the domain of the function.\<close>

definition in_domain :: "('a, 'v) FunctionMaxima \<Rightarrow> 'a \<Rightarrow> bool" where
  "in_domain s a \<longleftrightarrow> a \<in> set (map arg (function s))"

text \<open>The neighbours as the specification words them: the nearest position before
  (after) \<open>p\<close> that is not the omitted one, among the \<open>n\<close> positions of the store.\<close>

definition nearest_before :: "iterator \<Rightarrow> iterator \<Rightarrow> iterator option" where
  "nearest_before p omit =
     (case filter (\<lambda>j. j \<noteq> omit) (rev [0..<p]) of [] \<Rightarrow> None | j # _ \<Rightarrow> Some j)"

definition nearest_after :: "nat \<Rightarrow> iterator \<Rightarrow> iterator \<Rightarrow> iterator option" where
  "nearest_after n p omit =
     (case filter (\<lambda>j. j \<noteq> omit) [Suc p..<n] of [] \<Rightarrow> None | j # _ \<Rightarrow> Some j)"

text \<open>For the objects behind shared pointers: an object made of the points of another;
  a point whose two objects are on the heap; a world in which this holds of every point
  of every object; a heap that holds the objects of another at the same addresses; an
  execution that has left the heap and the store of the object as they were and has put
  into the index of the object points of the object only.\<close>

definition from_nodes :: "shared_FunctionMaxima \<Rightarrow> shared_FunctionMaxima \<Rightarrow> bool" where
  "from_nodes s s' \<longleftrightarrow>
     function_sh s' = function_sh s
     \<and> set (maxima_sh s') \<subseteq> set (function_sh s) \<union> set (maxima_sh s)"

definition allocated :: "('a, 'v) heap \<Rightarrow> shared_point \<Rightarrow> bool" where
  "allocated h p \<longleftrightarrow> arg_ptr p < length (arg_cells h) \<and> value_ptr p < length (value_cells h)"

definition nodes :: "shared_FunctionMaxima \<Rightarrow> shared_point set" where
  "nodes s = set (function_sh s) \<union> set (maxima_sh s)"

definition well_formed :: "('a, 'v) world \<Rightarrow> bool" where
  "well_formed w \<longleftrightarrow> (\<forall>p. \<forall>n \<in> nodes (objects w p). allocated (heap w) n)"

definition extends :: "('a, 'v) heap \<Rightarrow> ('a, 'v) heap \<Rightarrow> bool" where
  "extends h h' \<longleftrightarrow>
     take (length (arg_cells h)) (arg_cells h') = arg_cells h
     \<and> take (length (value_cells h)) (value_cells h') = value_cells h"

definition quiet :: "('a, 'v) exec_sh \<Rightarrow> ('a, 'v) exec_sh \<Rightarrow> bool" where
  "quiet e e' \<longleftrightarrow> heap_sh e' = heap_sh e \<and> from_nodes (this_sh e) (this_sh e')"

text \<open>A world with one object of two points, at address 0.\<close>

definition example_world :: "(int, int) world" where
  "example_world = calls_on 0 [(Set_value 1 5, None), (Set_value 2 3, None)] empty_world"

text \<open>The state in which \<open>set_value(1, 1)\<close> leaves the empty structure when the sixth
  of its operations that may throw, \<open>rollback.push_back\<close> in \<open>update_maxima\<close>, throws.\<close>

definition after_failed_set_value :: "(int, int) FunctionMaxima" where
  "after_failed_set_value = this (snd (set_value_exc 1 1 (start empty_fm (Some 5))))"

text \<open>A store of four points with a plateau of three behind a higher point.\<close>

definition plateau_example :: "(int, int) FunctionMaxima" where
  "plateau_example = run [Set_value 1 5, Set_value 2 3, Set_value 3 3, Set_value 4 3]"


section \<open>The multiset operations\<close>

lemma comp_by_maxima_irrefl: "\<not> comp_by_maxima p p"
  by (simp add: comp_by_maxima_def)

lemma comp_by_maxima_trans: "comp_by_maxima p q \<Longrightarrow> comp_by_maxima q r \<Longrightarrow> comp_by_maxima p r"
  by (auto simp: comp_by_maxima_def)

lemma comp_by_maxima_total:
  fixes p q :: "('a::linorder, 'v::linorder) point"
  shows "comp_by_maxima p q \<or> p = q \<or> comp_by_maxima q p"
  by (cases p; cases q) (auto simp: comp_by_maxima_def)

lemma mx_le_refl: "mx_le p p"
  by (simp add: mx_le_def comp_by_maxima_irrefl)

lemma mx_le_trans: "mx_le p q \<Longrightarrow> mx_le q r \<Longrightarrow> mx_le p r"
  by (auto simp: mx_le_def comp_by_maxima_def)

lemma comp_imp_mx_le: "comp_by_maxima p q \<Longrightarrow> mx_le p q"
  by (auto simp: mx_le_def comp_by_maxima_def)

lemma mx_le_antisym:
  fixes p q :: "('a::linorder, 'v::linorder) point"
  shows "mx_le p q \<Longrightarrow> mx_le q p \<Longrightarrow> p = q"
  using comp_by_maxima_total [of p q] by (auto simp: mx_le_def)

lemma mset_mx_insert: "mset (mx_insert p m) = add_mset p (mset m)"
  by (induction m) auto

lemma set_mx_insert: "set (mx_insert p m) = insert p (set m)"
  by (induction m) auto

lemma sorted_mx_insert: "sorted_wrt mx_le m \<Longrightarrow> sorted_wrt mx_le (mx_insert p m)"
proof (induction m)
  case Nil
  then show ?case by simp
next
  case (Cons q qs)
  show ?case
  proof (cases "comp_by_maxima p q")
    case True
    then have "mx_le p q" by (rule comp_imp_mx_le)
    moreover have "\<forall>y\<in>set qs. mx_le p y"
      using Cons.prems \<open>mx_le p q\<close> by (auto intro: mx_le_trans)
    ultimately show ?thesis using True Cons.prems by simp
  next
    case False
    then have "mx_le q p" by (simp add: mx_le_def)
    then show ?thesis using False Cons by (auto simp: set_mx_insert)
  qed
qed

lemma sorted_remove1_mx: "sorted_wrt mx_le m \<Longrightarrow> sorted_wrt mx_le (remove1 p m)"
  by (induction m) (auto dest: notin_set_remove1)

lemma sorted_mx_erase: "sorted_wrt mx_le m \<Longrightarrow> sorted_wrt mx_le (mx_erase it m)"
  by (auto simp: mx_erase_def sorted_remove1_mx split: option.splits)

lemma mx_find_sorted:
  fixes p :: "('a::linorder, 'v::linorder) point"
  shows "sorted_wrt mx_le m \<Longrightarrow> mx_find m p = (if p \<in> set m then Some p else None)"
proof (induction m)
  case Nil
  then show ?case by (simp add: mx_find_def)
next
  case (Cons q qs)
  show ?case
  proof (cases "comp_by_maxima q p")
    case True
    then have "p \<noteq> q" using comp_by_maxima_irrefl by auto
    moreover have "mx_find (q # qs) p = mx_find qs p"
      using True by (simp add: mx_find_def)
    ultimately show ?thesis using Cons by auto
  next
    case nlt: False
    show ?thesis
    proof (cases "comp_by_maxima p q")
      case True
      have "p \<notin> set (q # qs)"
      proof
        assume "p \<in> set (q # qs)"
        then have "mx_le q p" using Cons.prems by (auto simp: mx_le_refl)
        then show False using True by (simp add: mx_le_def)
      qed
      then show ?thesis using True nlt by (simp add: mx_find_def)
    next
      case False
      then have "p = q" using nlt comp_by_maxima_total [of p q] by auto
      then show ?thesis using False nlt by (simp add: mx_find_def)
    qed
  qed
qed


section \<open>The maintenance step\<close>

lemma length_func_erase: "it < length g \<Longrightarrow> length (func_erase it g) = length g - 1"
  by (simp add: func_erase_def)

lemma nth_func_erase_lt: "k < it \<Longrightarrow> it < length g \<Longrightarrow> func_erase it g ! k = g ! k"
  by (simp add: func_erase_def nth_append)

lemma nth_func_erase_ge: "it \<le> k \<Longrightarrow> it < length g \<Longrightarrow> func_erase it g ! k = g ! Suc k"
  by (simp add: func_erase_def nth_append min_def)

lemma is_local_maximum_iff:
  "is_local_maximum f it omit_it \<longleftrightarrow>
     it \<noteq> omit_it
     \<and> (case left_of it omit_it of None \<Rightarrow> True | Some l \<Rightarrow> \<not> value (f ! it) < value (f ! l))
     \<and> (case right_of (length f) it omit_it of None \<Rightarrow> True
         | Some r \<Rightarrow> \<not> value (f ! it) < value (f ! r))"
  by (simp add: is_local_maximum_def left_of_def right_of_def)

lemma left_of_end: "it < n \<Longrightarrow> left_of it n = (if it = 0 then None else Some (it - 1))"
  by (auto simp: left_of_def)

lemma right_of_end: "it < n \<Longrightarrow> right_of n it n = (if Suc it = n then None else Some (Suc it))"
  by (auto simp: right_of_def)

lemma is_local_maximum_omit:
  assumes "omit_it < length g" "j < length g" "j \<noteq> omit_it"
  shows "is_local_maximum g j omit_it
         = is_local_maximum (func_erase omit_it g) (if j < omit_it then j else j - Suc 0) (length g - Suc 0)"
proof -
  let ?g' = "func_erase omit_it g"
  have len: "length ?g' = length g - Suc 0" using assms by (simp add: length_func_erase)
  consider (far_left) "Suc j < omit_it" | (left) "Suc j = omit_it"
    | (right) "j = Suc omit_it" | (far_right) "Suc omit_it < j"
    using assms(3) by linarith
  then show ?thesis
  proof cases
    case far_left
    have l: "left_of j omit_it = (if j = 0 then None else Some (j - Suc 0))"
      using far_left by (auto simp: left_of_def)
    have r: "right_of (length g) j omit_it = Some (Suc j)"
      using far_left assms by (auto simp: right_of_def)
    have l': "left_of j (length g - Suc 0) = (if j = 0 then None else Some (j - Suc 0))"
      using far_left assms by (auto simp: left_of_def)
    have r': "right_of (length g - Suc 0) j (length g - Suc 0) = Some (Suc j)"
      using far_left assms by (auto simp: right_of_def)
    have n: "?g' ! j = g ! j" "?g' ! (j - Suc 0) = g ! (j - Suc 0)" "?g' ! Suc j = g ! Suc j"
      using far_left assms by (simp_all add: nth_func_erase_lt)
    have ne: "j \<noteq> length g - Suc 0" using far_left assms by linarith
    have jp: "(if j < omit_it then j else j - Suc 0) = j" using far_left by simp
    show ?thesis unfolding jp
      by (simp add: is_local_maximum_iff len l r l' r' n ne assms(3))
  next
    case left
    have l: "left_of j omit_it = (if j = 0 then None else Some (j - Suc 0))"
      using left by (auto simp: left_of_def)
    have r: "right_of (length g) j omit_it
               = (if Suc (Suc j) = length g then None else Some (Suc (Suc j)))"
      using left assms by (auto simp: right_of_def)
    have l': "left_of j (length g - Suc 0) = (if j = 0 then None else Some (j - Suc 0))"
      using left assms by (auto simp: left_of_def)
    have r': "right_of (length g - Suc 0) j (length g - Suc 0)
               = (if Suc (Suc j) = length g then None else Some (Suc j))"
      using left assms by (auto simp: right_of_def)
    have n: "?g' ! j = g ! j" "?g' ! (j - Suc 0) = g ! (j - Suc 0)" "?g' ! Suc j = g ! Suc (Suc j)"
      using left assms by (simp_all add: nth_func_erase_lt nth_func_erase_ge)
    have ne: "j \<noteq> length g - Suc 0" using left assms by linarith
    have jp: "(if j < omit_it then j else j - Suc 0) = j" using left by simp
    show ?thesis unfolding jp
      by (simp add: is_local_maximum_iff len l r l' r' n ne assms(3))
  next
    case right
    have l: "left_of j omit_it = (if omit_it = 0 then None else Some (omit_it - Suc 0))"
      using right by (auto simp: left_of_def numeral_2_eq_2)
    have r: "right_of (length g) j omit_it = (if Suc j = length g then None else Some (Suc j))"
      using right assms by (auto simp: right_of_def)
    have l': "left_of omit_it (length g - Suc 0) = (if omit_it = 0 then None else Some (omit_it - Suc 0))"
      using right assms by (auto simp: left_of_def)
    have r': "right_of (length g - Suc 0) omit_it (length g - Suc 0)
               = (if Suc j = length g then None else Some j)"
      using right assms by (auto simp: right_of_def)
    have n: "?g' ! omit_it = g ! j" "?g' ! j = g ! Suc j"
      "omit_it \<noteq> 0 \<Longrightarrow> ?g' ! (omit_it - Suc 0) = g ! (omit_it - Suc 0)"
      using right assms by (simp_all add: nth_func_erase_lt nth_func_erase_ge)
    have ne: "omit_it \<noteq> length g - Suc 0" using right assms by linarith
    have jp: "(if j < omit_it then j else j - Suc 0) = omit_it" using right by simp
    show ?thesis unfolding jp
      by (simp add: is_local_maximum_iff len l r l' r' n ne assms(3))
  next
    case far_right
    have l: "left_of j omit_it = Some (j - Suc 0)"
      using far_right by (auto simp: left_of_def)
    have r: "right_of (length g) j omit_it = (if Suc j = length g then None else Some (Suc j))"
      using far_right assms by (auto simp: right_of_def)
    have l': "left_of (j - Suc 0) (length g - Suc 0) = Some (j - Suc (Suc 0))"
      using far_right assms by (auto simp: left_of_def)
    have r': "right_of (length g - Suc 0) (j - Suc 0) (length g - Suc 0)
               = (if Suc j = length g then None else Some j)"
      using far_right assms by (auto simp: right_of_def)
    have n: "?g' ! (j - Suc 0) = g ! j" "?g' ! (j - Suc (Suc 0)) = g ! (j - Suc 0)" "?g' ! j = g ! Suc j"
      using far_right assms by (simp_all add: nth_func_erase_ge Suc_diff_Suc)
    have ne: "j - Suc 0 \<noteq> length g - Suc 0" using far_right assms by linarith
    have jp: "(if j < omit_it then j else j - Suc 0) = j - Suc 0" using far_right by simp
    show ?thesis unfolding jp
      by (simp add: is_local_maximum_iff len l r l' r' n ne assms(3))
  qed
qed
lemma func_erase_end: "func_erase (length g) g = g"
  by (simp add: func_erase_def)

lemma update_maxima_left: "(case safe_decrement it of
               (False, _) \<Rightarrow> (None, s1)
             | (True, cpy_it) \<Rightarrow>
                 if cpy_it \<noteq> omit_it then stopped_being_maximum s1 cpy_it omit_it
                 else (case safe_decrement cpy_it of
                         (False, _) \<Rightarrow> (None, s1)
                       | (True, cpy_it') \<Rightarrow> stopped_being_maximum s1 cpy_it' omit_it))
           = (case left_of it omit_it of None \<Rightarrow> (None, s1)
                        | Some l \<Rightarrow> stopped_being_maximum s1 l omit_it)"
  apply (cases "it = 0")
   apply (simp add: safe_decrement_def left_of_def)
  apply (cases "it - 1 = omit_it")
   apply (cases "it - 1 = 0")
    apply (simp add: safe_decrement_def left_of_def)
   apply (simp add: safe_decrement_def left_of_def)
   apply (metis One_nat_def Suc_1 diff_diff_left plus_1_eq_Suc)
  apply (simp add: safe_decrement_def left_of_def)
  done

lemma update_maxima_right: "(if Suc it \<noteq> length (function s2)
             then (if Suc it \<noteq> omit_it then stopped_being_maximum s2 (Suc it) omit_it
                   else if Suc (Suc it) \<noteq> length (function s2)
                   then stopped_being_maximum s2 (Suc (Suc it)) omit_it
                   else (None, s2))
             else (None, s2))
          = (case right_of (length (function s2)) it omit_it of None \<Rightarrow> (None, s2)
                        | Some r \<Rightarrow> stopped_being_maximum s2 r omit_it)"
    by (simp add: right_of_def)

lemma update_maxima_alt:
  "update_maxima s it omit_it =
     (let s1 = (if is_local_maximum (function s) it omit_it
                then s\<lparr>maxima := mx_insert (function s ! it) (maxima s)\<rparr> else s);
          (left, s2) = (case left_of it omit_it of None \<Rightarrow> (None, s1)
                        | Some l \<Rightarrow> stopped_being_maximum s1 l omit_it);
          (right, s3) = (case right_of (length (function s2)) it omit_it of None \<Rightarrow> (None, s2)
                        | Some r \<Rightarrow> stopped_being_maximum s2 r omit_it);
          s4 = s3\<lparr>maxima := mx_erase left (maxima s3)\<rparr>
      in s4\<lparr>maxima := mx_erase right (maxima s4)\<rparr>)"
  unfolding update_maxima_def update_maxima_left update_maxima_right by (rule refl)

lemma stopped_being_maximum_cases:
  assumes "sorted_wrt mx_le (maxima s)"
    and "stopped_being_maximum s c omit_it = (res, s')"
  shows "function s' = function s \<and> sorted_wrt mx_le (maxima s')
       \<and> (if is_local_maximum (function s) c omit_it
          then res = None \<and> mset (maxima s') = settle True (function s ! c) (mset (maxima s))
          else maxima s' = maxima s
             \<and> res = (if function s ! c \<in> set (maxima s) then Some (function s ! c) else None))"
  using assms
  by (auto simp: stopped_being_maximum_def Let_def mx_find_sorted settle_def
        mset_mx_insert sorted_mx_insert split: if_splits)


lemma settle_diff_commute:
  "x \<noteq> y \<Longrightarrow> settle b x M - {#y#} = settle b x (M - {#y#})"
  by (auto simp: settle_def in_diff_count multiset_eq_iff)

lemma mset_mx_erase:
  "mset (mx_erase it m) = mset m - (case it of None \<Rightarrow> {#} | Some p \<Rightarrow> {#p#})"
  by (simp add: mx_erase_def split: option.splits)

lemma update_maxima_effect:
  assumes srt: "sorted_wrt mx_le (maxima s)"
    and ne: "\<And>l r. left_of it omit_it = Some l \<Longrightarrow>
               right_of (length (function s)) it omit_it = Some r \<Longrightarrow>
               function s ! l \<noteq> function s ! r"
  shows "function (update_maxima s it omit_it) = function s"
    and "sorted_wrt mx_le (maxima (update_maxima s it omit_it))"
    and "mset (maxima (update_maxima s it omit_it)) =
         (let g = function s;
              M1 = (if is_local_maximum g it omit_it
                    then add_mset (g ! it) (mset (maxima s)) else mset (maxima s));
              M2 = (case left_of it omit_it of None \<Rightarrow> M1
                    | Some l \<Rightarrow> settle (is_local_maximum g l omit_it) (g ! l) M1)
          in case right_of (length g) it omit_it of None \<Rightarrow> M2
             | Some r \<Rightarrow> settle (is_local_maximum g r omit_it) (g ! r) M2)"
proof -
  let ?g = "function s"
  define s1 where "s1 = (if is_local_maximum ?g it omit_it
                then s\<lparr>maxima := mx_insert (?g ! it) (maxima s)\<rparr> else s)"
  define M1 where "M1 = (if is_local_maximum ?g it omit_it
                    then add_mset (?g ! it) (mset (maxima s)) else mset (maxima s))"
  define M2 where "M2 = (case left_of it omit_it of None \<Rightarrow> M1
                    | Some l \<Rightarrow> settle (is_local_maximum ?g l omit_it) (?g ! l) M1)"
  define M3 where "M3 = (case right_of (length ?g) it omit_it of None \<Rightarrow> M2
             | Some r \<Rightarrow> settle (is_local_maximum ?g r omit_it) (?g ! r) M2)"
  have s1: "function s1 = ?g" "sorted_wrt mx_le (maxima s1)" "mset (maxima s1) = M1"
    using srt by (auto simp: s1_def M1_def sorted_mx_insert mset_mx_insert)
  obtain left s2 where ls2:
    "(case left_of it omit_it of None \<Rightarrow> (None, s1)
      | Some l \<Rightarrow> stopped_being_maximum s1 l omit_it) = (left, s2)"
    by fastforce
  have s2: "function s2 = ?g \<and> sorted_wrt mx_le (maxima s2)
      \<and> mset (maxima s2) - (case left of None \<Rightarrow> {#} | Some p \<Rightarrow> {#p#}) = M2
      \<and> (left = None \<or> (\<exists>l. left_of it omit_it = Some l \<and> left = Some (?g ! l)))"
  proof (cases "left_of it omit_it")
    case None
    then show ?thesis using ls2 s1 by (auto simp: M2_def)
  next
    case (Some l)
    then have "stopped_being_maximum s1 l omit_it = (left, s2)" using ls2 by simp
    from stopped_being_maximum_cases [OF s1(2) this] show ?thesis
      using Some s1 by (auto simp: M2_def settle_def split: if_splits)
  qed
  obtain right s3 where rs3:
    "(case right_of (length (function s2)) it omit_it of None \<Rightarrow> (None, s2)
      | Some r \<Rightarrow> stopped_being_maximum s2 r omit_it) = (right, s3)"
    by fastforce
  have s3: "function s3 = ?g \<and> sorted_wrt mx_le (maxima s3)
      \<and> mset (maxima s3) - (case left of None \<Rightarrow> {#} | Some p \<Rightarrow> {#p#})
            - (case right of None \<Rightarrow> {#} | Some p \<Rightarrow> {#p#}) = M3"
  proof (cases "right_of (length ?g) it omit_it")
    case None
    then show ?thesis using rs3 s2 by (auto simp: M3_def)
  next
    case (Some r)
    then have sb: "stopped_being_maximum s2 r omit_it = (right, s3)" using rs3 s2 by simp
    have d: "?g ! r \<noteq> p" if lp: "left = Some p" for p
    proof -
      have "left = None \<or> (\<exists>l. left_of it omit_it = Some l \<and> left = Some (?g ! l))"
        using s2 by blast
      then obtain l where "left_of it omit_it = Some l" "p = ?g ! l" using lp by auto
      then show ?thesis using ne [OF _ Some] by metis
    qed
    note c = stopped_being_maximum_cases [OF _ sb]
    show ?thesis
    proof (cases "is_local_maximum ?g r omit_it")
      case True
      then have "right = None" "mset (maxima s3) = settle True (?g ! r) (mset (maxima s2))"
        "function s3 = ?g" "sorted_wrt mx_le (maxima s3)"
        using c s2 by auto
      then show ?thesis using s2 d True Some
        by (cases left) (auto simp: M3_def settle_diff_commute)
    next
      case False
      then have "maxima s3 = maxima s2" "function s3 = ?g"
        "right = (if ?g ! r \<in> set (maxima s2) then Some (?g ! r) else None)"
        using c s2 by auto
      moreover have "(?g ! r \<in># mset (maxima s2) - (case left of None \<Rightarrow> {#} | Some p \<Rightarrow> {#p#}))
          = (?g ! r \<in> set (maxima s2))"
        using d by (cases left) (auto simp: in_diff_count)
      ultimately show ?thesis using s2 False Some
        by (auto simp: M3_def settle_def)
    qed
  qed
  have um: "update_maxima s it omit_it
            = s3\<lparr>maxima := mx_erase right (mx_erase left (maxima s3))\<rparr>"
    using ls2 rs3 by (simp add: update_maxima_alt s1_def [symmetric] Let_def)
  show "function (update_maxima s it omit_it) = function s"
    using um s3 by simp
  show "sorted_wrt mx_le (maxima (update_maxima s it omit_it))"
    using um s3 by (simp add: sorted_mx_erase)
  have "mset (maxima (update_maxima s it omit_it)) = M3"
    using um s3 by (simp add: mset_mx_erase)
  then show "mset (maxima (update_maxima s it omit_it)) =
         (let g = function s;
              M1 = (if is_local_maximum g it omit_it
                    then add_mset (g ! it) (mset (maxima s)) else mset (maxima s));
              M2 = (case left_of it omit_it of None \<Rightarrow> M1
                    | Some l \<Rightarrow> settle (is_local_maximum g l omit_it) (g ! l) M1)
          in case right_of (length g) it omit_it of None \<Rightarrow> M2
             | Some r \<Rightarrow> settle (is_local_maximum g r omit_it) (g ! r) M2)"
    unfolding M3_def M2_def M1_def Let_def .
qed



section \<open>Local maxima of a store\<close>

lemma count_settle:
  "count (settle b y M) x =
     (if x = y then (if b then max 1 (count M y) else count M y - 1) else count M x)"
  by (auto simp: settle_def not_in_iff max_def dest: count_eq_zero_iff [THEN iffD1])

lemma sorted_args_distinct: "sorted_wrt comp_by_arg f \<Longrightarrow> distinct f"
  by (induction f) (auto simp: comp_by_arg_def)

lemma in_local_maxima_iff:
  "x \<in> set (local_maxima f) \<longleftrightarrow> (\<exists>j<length f. f ! j = x \<and> is_local_maximum f j (length f))"
  by (auto simp: local_maxima_def)

lemma distinct_local_maxima: "distinct f \<Longrightarrow> distinct (local_maxima f)"
  unfolding local_maxima_def
  by (rule distinct_map [THEN iffD2]) (auto simp: inj_on_def nth_eq_iff_index_eq)

lemma count_local_maxima:
  "distinct f \<Longrightarrow>
     count (mset (local_maxima f)) x = (if x \<in> set (local_maxima f) then 1 else 0)"
  using distinct_local_maxima [of f] by (simp add: distinct_count_atmost_1)

lemma nth_in_local_maxima:
  "distinct f \<Longrightarrow> j < length f \<Longrightarrow>
     f ! j \<in> set (local_maxima f) \<longleftrightarrow> is_local_maximum f j (length f)"
  by (auto simp: in_local_maxima_iff nth_eq_iff_index_eq)

lemma is_local_maximum_prefix:
  assumes "Suc j < length xs"
  shows "is_local_maximum (xs @ ys) j (length (xs @ ys))
         \<longleftrightarrow> (j = 0 \<or> \<not> value (xs ! j) < value (xs ! (j - Suc 0)))
              \<and> \<not> value (xs ! j) < value (xs ! Suc j)"
  using assms by (auto simp: is_local_maximum_def nth_append)

lemma is_local_maximum_suffix:
  assumes "0 < k" "k < length zs"
  shows "is_local_maximum (ys @ zs) (length ys + k) (length (ys @ zs))
         \<longleftrightarrow> \<not> value (zs ! k) < value (zs ! (k - Suc 0))
              \<and> (Suc k = length zs \<or> \<not> value (zs ! k) < value (zs ! Suc k))"
  using assms by (auto simp: is_local_maximum_def nth_append)

lemma local_maxima_cong:
  assumes x: "x \<in> set (local_maxima (xs @ old @ zs))"
    and old: "x \<notin> set old"
    and l: "xs \<noteq> [] \<Longrightarrow> x \<noteq> last xs"
    and r: "zs \<noteq> [] \<Longrightarrow> x \<noteq> hd zs"
  shows "x \<in> set (local_maxima (xs @ new @ zs))"
proof -
  let ?f = "xs @ old @ zs" and ?f' = "xs @ new @ zs"
  obtain j where j: "j < length ?f" "?f ! j = x" "is_local_maximum ?f j (length ?f)"
    using x by (auto simp: in_local_maxima_iff)
  consider (left) "j < length xs" | (mid) "length xs \<le> j" "j < length xs + length old"
    | (right) "length xs + length old \<le> j"
    by linarith
  then show ?thesis
  proof cases
    case left
    then have xj: "x = xs ! j" using j(2) by (simp add: nth_append)
    have "xs \<noteq> []" using left by auto
    then have "j \<noteq> length xs - 1" using l xj by (auto simp: last_conv_nth)
    then have sj: "Suc j < length xs" using left by linarith
    have "is_local_maximum ?f' j (length ?f')"
      using j(3) is_local_maximum_prefix [OF sj, of "old @ zs"]
        is_local_maximum_prefix [OF sj, of "new @ zs"] by simp
    moreover have "?f' ! j = x" using left xj by (simp add: nth_append)
    moreover have "j < length ?f'" using left by simp
    ultimately show ?thesis unfolding in_local_maxima_iff by blast
  next
    case mid
    then have lt: "j - length xs < length old" by linarith
    then have "x = old ! (j - length xs)" using j(2) mid by (simp add: nth_append)
    then have "x \<in> set old" using lt by simp
    then show ?thesis using old by simp
  next
    case right
    define k where "k = j - (length xs + length old)"
    have jk: "j = length (xs @ old) + k" using right by (simp add: k_def)
    have klt: "k < length zs" using j(1) jk by simp
    have xk: "x = zs ! k" using j(2) jk by (metis append_assoc nth_append_length_plus)
    have "zs \<noteq> []" using klt by auto
    then have k0: "0 < k" using r xk by (cases "k = 0") (auto simp: hd_conv_nth)
    have "is_local_maximum ((xs @ old) @ zs) (length (xs @ old) + k) (length ((xs @ old) @ zs))"
      using j(3) jk by simp
    then have "is_local_maximum ((xs @ new) @ zs) (length (xs @ new) + k) (length ((xs @ new) @ zs))"
      using is_local_maximum_suffix [OF k0 klt, of "xs @ old"]
        is_local_maximum_suffix [OF k0 klt, of "xs @ new"] by blast
    moreover have "((xs @ new) @ zs) ! (length (xs @ new) + k) = x"
      using xk by (metis nth_append_length_plus)
    moreover have "length (xs @ new) + k < length ((xs @ new) @ zs)" using klt by simp
    ultimately show ?thesis unfolding in_local_maxima_iff
      by (metis append_assoc)
  qed
qed

section \<open>One mutation of the store and the index\<close>

lemma maxima_transition:
  fixes xs old new zs :: "('a::linorder, 'v::linorder) point list"
  assumes so: "sorted_wrt comp_by_arg (xs @ old @ zs)"
    and sn: "sorted_wrt comp_by_arg (xs @ new @ zs)"
    and lo: "length old \<le> 1" and ln: "length new \<le> 1"
    and M: "M = mset (local_maxima (xs @ old @ zs))"
    and M1: "M1 = (if new \<noteq> [] \<and> is_local_maximum (xs @ new @ zs) (length xs) (length (xs @ new @ zs))
                   then add_mset (hd new) M else M)"
    and M2: "M2 = (if xs = [] then M1
                   else settle (is_local_maximum (xs @ new @ zs) (length xs - 1) (length (xs @ new @ zs)))
                          (last xs) M1)"
    and M3: "M3 = (if zs = [] then M2
                   else settle (is_local_maximum (xs @ new @ zs) (length xs + length new)
                                  (length (xs @ new @ zs))) (hd zs) M2)"
  shows "M3 - (if old \<noteq> [] \<and> hd old \<in># M then {#hd old#} else {#})
         = mset (local_maxima (xs @ new @ zs))"
proof (rule multiset_eqI)
  fix x
  let ?f = "xs @ old @ zs" and ?f' = "xs @ new @ zs"
  let ?D = "(if old \<noteq> [] \<and> hd old \<in># M then {#hd old#} else {#})"
  have df: "distinct ?f" and df': "distinct ?f'"
    using sorted_args_distinct [OF so] sorted_args_distinct [OF sn] by blast+
  have cM: "count M y = (if y \<in> set (local_maxima ?f) then 1 else 0)" for y
    using count_local_maxima [OF df] M by simp
  have inM: "y \<in># M \<longleftrightarrow> y \<in> set (local_maxima ?f)" for y
    using M by simp
  have cR: "count (mset (local_maxima ?f')) y = (if y \<in> set (local_maxima ?f') then 1 else 0)" for y
    using count_local_maxima [OF df'] by simp
  have sub: "set (local_maxima ?f) \<subseteq> set ?f" "set (local_maxima ?f') \<subseteq> set ?f'"
    by (auto simp: in_local_maxima_iff simp del: set_append)
  have lastxs: "?f' ! (length xs - 1) = last xs" if "xs \<noteq> []"
    using that by (simp add: nth_append last_conv_nth)
  have hdzs: "?f' ! (length xs + length new) = hd zs" if "zs \<noteq> []"
    using that by (simp add: nth_append hd_conv_nth)
  consider (new) "x \<in> set new"
    | (left) "x \<notin> set new" "xs \<noteq> []" "x = last xs"
    | (right) "x \<notin> set new" "zs \<noteq> []" "x = hd zs"
    | (old) "x \<notin> set new" "x \<in> set old" "xs \<noteq> [] \<longrightarrow> x \<noteq> last xs" "zs \<noteq> [] \<longrightarrow> x \<noteq> hd zs"
    | (other) "x \<notin> set new" "x \<notin> set old" "xs \<noteq> [] \<longrightarrow> x \<noteq> last xs" "zs \<noteq> [] \<longrightarrow> x \<noteq> hd zs"
    by blast
  then show "count (M3 - ?D) x = count (mset (local_maxima ?f')) x"
  proof cases
    case new
    then have nx: "new = [x]" using ln by (cases new) auto
    have notin: "x \<notin> set xs" "x \<notin> set zs" using df' nx by auto
    then have ne: "xs \<noteq> [] \<Longrightarrow> x \<noteq> last xs" "zs \<noteq> [] \<Longrightarrow> x \<noteq> hd zs"
      using last_in_set hd_in_set by metis+
    have fi: "?f' ! length xs = x" using nx by simp
    have b: "x \<in> set (local_maxima ?f') \<longleftrightarrow> is_local_maximum ?f' (length xs) (length ?f')"
      using nth_in_local_maxima [OF df', of "length xs"] fi nx by simp
    have c3: "count M3 x = count M x + (if is_local_maximum ?f' (length xs) (length ?f') then 1 else 0)"
      using ne nx by (auto simp: M3 M2 M1 count_settle)
    have "count ?D x = count M x"
    proof (cases "x \<in> set (local_maxima ?f)")
      case True
      then have "x \<in> set old" using sub(1) notin by auto
      then have "old = [x]" using lo by (cases old) auto
      then show ?thesis using True cM [of x] inM [of x] by simp
    next
      case False
      then have "count M x = 0" "x \<notin># M" using cM inM by simp_all
      then show ?thesis by auto
    qed
    then show ?thesis using c3 b cR by simp
  next
    case left
    have xin: "x \<in> set xs" using left by simp
    then have notin: "x \<notin> set old" "x \<notin> set zs" using df by auto
    then have ne: "zs \<noteq> [] \<Longrightarrow> x \<noteq> hd zs" using hd_in_set by metis
    have lt: "length xs - 1 < length ?f'" using left by (cases xs) auto
    have b: "x \<in> set (local_maxima ?f') \<longleftrightarrow> is_local_maximum ?f' (length xs - 1) (length ?f')"
      using nth_in_local_maxima [OF df' lt] lastxs left by simp
    have "count M1 x = count M x" using left by (auto simp: M1 dest: hd_in_set)
    then have "count M2 x = (if is_local_maximum ?f' (length xs - 1) (length ?f') then 1 else 0)"
      using left cM [of x] by (auto simp: M2 count_settle)
    then have "count M3 x = (if is_local_maximum ?f' (length xs - 1) (length ?f') then 1 else 0)"
      using ne by (auto simp: M3 count_settle)
    moreover have "count ?D x = 0" using notin by (auto dest: hd_in_set)
    ultimately show ?thesis using b cR by simp
  next
    case right
    have xin: "x \<in> set zs" using right by simp
    then have notin: "x \<notin> set old" "x \<notin> set xs" using df by auto
    then have ne: "xs \<noteq> [] \<Longrightarrow> x \<noteq> last xs" using last_in_set by metis
    have lt: "length xs + length new < length ?f'" using right by (cases zs) auto
    have b: "x \<in> set (local_maxima ?f')
             \<longleftrightarrow> is_local_maximum ?f' (length xs + length new) (length ?f')"
      using nth_in_local_maxima [OF df' lt] hdzs right by simp
    have "count M1 x = count M x" using right by (auto simp: M1 dest: hd_in_set)
    then have "count M2 x = count M x" using ne by (auto simp: M2 count_settle)
    then have "count M3 x
        = (if is_local_maximum ?f' (length xs + length new) (length ?f') then 1 else 0)"
      using right cM [of x] by (auto simp: M3 count_settle)
    moreover have "count ?D x = 0" using notin by (auto dest: hd_in_set)
    ultimately show ?thesis using b cR by simp
  next
    case old
    then have ox: "old = [x]" using lo by (cases old) auto
    have notin: "x \<notin> set xs" "x \<notin> set zs" using df ox by auto
    have "count M1 x = count M x" using old by (auto simp: M1 dest: hd_in_set)
    then have "count M2 x = count M x" using old by (auto simp: M2 count_settle)
    then have "count M3 x = count M x" using old by (auto simp: M3 count_settle)
    moreover have "count ?D x = count M x"
      using ox cM [of x] inM [of x] by auto
    moreover have "x \<notin> set (local_maxima ?f')" using sub(2) notin old(1) by auto
    ultimately show ?thesis using cR by simp
  next
    case other
    have "count M1 x = count M x" using other by (auto simp: M1 dest: hd_in_set)
    then have "count M2 x = count M x" using other by (auto simp: M2 count_settle)
    then have "count M3 x = count M x" using other by (auto simp: M3 count_settle)
    moreover have "count ?D x = 0" using other by (auto dest: hd_in_set)
    moreover have "x \<in> set (local_maxima ?f) \<longleftrightarrow> x \<in> set (local_maxima ?f')"
      using local_maxima_cong [of x xs old zs new] local_maxima_cong [of x xs new zs old] other
      by blast
    ultimately show ?thesis using cM cR by simp
  qed
qed

lemma function_stopped_being_maximum [simp]:
  "function (snd (stopped_being_maximum s c omit_it)) = function s"
  by (simp add: stopped_being_maximum_def Let_def)

lemma function_update_maxima [simp]: "function (update_maxima s it omit_it) = function s"
proof -
  define s1 where "s1 = (if is_local_maximum (function s) it omit_it
                then s\<lparr>maxima := mx_insert (function s ! it) (maxima s)\<rparr> else s)"
  define p2 where "p2 = (case left_of it omit_it of None \<Rightarrow> (None, s1)
                        | Some l \<Rightarrow> stopped_being_maximum s1 l omit_it)"
  define p3 where "p3 = (case right_of (length (function (snd p2))) it omit_it of
                          None \<Rightarrow> (None, snd p2)
                        | Some r \<Rightarrow> stopped_being_maximum (snd p2) r omit_it)"
  have 1: "function s1 = function s" by (simp add: s1_def)
  have 2: "function (snd p2) = function s1" by (simp add: p2_def split: option.splits)
  have 3: "function (snd p3) = function (snd p2)" by (simp add: p3_def split: option.splits)
  have "update_maxima s it omit_it
          = (snd p3)\<lparr>maxima := mx_erase (fst p3) (mx_erase (fst p2) (maxima (snd p3)))\<rparr>"
    unfolding p3_def p2_def s1_def
    by (simp add: update_maxima_alt Let_def case_prod_beta)
  then show ?thesis using 1 2 3 by simp
qed

lemma function_set_value:
  "function (set_value s a v) =
     (let f = function s; i = func_lower_bound f a;
          g = func_insert i \<lparr>arg = a, value = v\<rparr> f
      in if Suc i \<noteq> length g \<and> \<not> comp_by_arg (g ! i) (g ! Suc i)
         then func_erase (Suc i) g else g)"
  by (simp add: set_value_def Let_def end_fm_def)

lemma function_erase:
  "function (erase s a) =
     (let f = function s; it = func_find f a
      in if it = length f then f else func_erase it f)"
  by (simp add: erase_def Let_def end_fm_def)

lemma maxima_set_value:
  "maxima (set_value s a v) =
     (let f = function s; i = func_lower_bound f a;
          g = func_insert i \<lparr>arg = a, value = v\<rparr> f;
          diff = (Suc i \<noteq> length g \<and> \<not> comp_by_arg (g ! i) (g ! Suc i));
          s2 = update_maxima (s\<lparr>function := g\<rparr>) i (if diff then Suc i else length g)
      in if diff
         then mx_erase (if i \<noteq> length f then mx_find (maxima s) (f ! i) else None) (maxima s2)
         else maxima s2)"
  by (simp add: set_value_def Let_def end_fm_def)

lemma maxima_erase:
  "maxima (erase s a) =
     (let f = function s; it = func_find f a
      in if it = length f then maxima s
         else mx_erase (mx_find (maxima s) (f ! it)) (maxima (update_maxima s it it)))"
  by (simp add: erase_def Let_def end_fm_def)

section \<open>The class invariant is kept by \<open>set_value\<close> and \<open>erase\<close>\<close>

lemma takeWhile_args: "\<forall>x\<in>set (takeWhile (\<lambda>p. arg p < a) f). arg x < a"
  by (auto dest: set_takeWhileD)

lemma dropWhile_args:
  "sorted_wrt comp_by_arg f \<Longrightarrow> \<forall>y\<in>set (dropWhile (\<lambda>p. arg p < a) f). \<not> arg y < a"
proof (induction f)
  case Nil
  then show ?case by simp
next
  case (Cons x f)
  show ?case
  proof (cases "arg x < a")
    case True
    have "sorted_wrt comp_by_arg f" using Cons.prems by simp
    then have ih: "\<forall>y\<in>set (dropWhile (\<lambda>p. arg p < a) f). \<not> arg y < a"
      by (rule Cons.IH)
    have "dropWhile (\<lambda>p. arg p < a) (x # f) = dropWhile (\<lambda>p. arg p < a) f"
      using True by simp
    then show ?thesis using ih by (simp only:)
  next
    case False
    have "\<not> arg y < a" if "y \<in> set f" for y
    proof -
      have "arg x < arg y" using Cons.prems that by (simp add: comp_by_arg_def)
      then show ?thesis using False by simp
    qed
    moreover have "dropWhile (\<lambda>p. arg p < a) (x # f) = x # f"
      using False by simp
    ultimately show ?thesis using False by (simp only: set_simps) blast
  qed
qed

lemma set_value_shape:
  fixes s :: "('a::linorder, 'v::linorder) FunctionMaxima"
  assumes inv: "invariant s"
  shows "\<exists>xs old zs. function s = xs @ old @ zs
           \<and> function (set_value s a v) = xs @ [\<lparr>arg = a, value = v\<rparr>] @ zs
           \<and> length old \<le> 1 \<and> (\<forall>x\<in>set xs. arg x < a) \<and> (\<forall>x\<in>set old. arg x = a)
           \<and> (\<forall>x\<in>set zs. a < arg x) \<and> invariant (set_value s a v)"
proof -
  define N :: "('a, 'v) point" where "N = \<lparr>arg = a, value = v\<rparr>"
  define f where "f = function s"
  define xs where "xs = takeWhile (\<lambda>p. arg p < a) f"
  define ys where "ys = dropWhile (\<lambda>p. arg p < a) f"
  define g where "g = xs @ N # ys"
  have srt: "sorted_wrt comp_by_arg f" and msrt: "sorted_wrt mx_le (maxima s)"
    and mM: "mset (maxima s) = mset (local_maxima f)"
    using inv by (simp_all add: invariant_def f_def)
  have f: "f = xs @ ys" by (simp add: xs_def ys_def)
  have i: "func_lower_bound f a = length xs" by (simp add: func_lower_bound_def xs_def)
  have g: "func_insert (length xs) N f = g" by (simp add: func_insert_def f g_def)
  have xs_lt: "\<forall>x\<in>set xs. arg x < a" unfolding xs_def by (rule takeWhile_args)
  have ys_ge: "\<forall>y\<in>set ys. \<not> arg y < a" unfolding ys_def using srt by (rule dropWhile_args)
  have sxs: "sorted_wrt comp_by_arg xs" and sys: "sorted_wrt comp_by_arg ys"
    using srt f by (simp_all add: sorted_wrt_append)
  define diff where "diff \<longleftrightarrow> ys \<noteq> [] \<and> \<not> a < arg (hd ys)"
  have diff_code:
    "(Suc (length xs) \<noteq> length g \<and> \<not> comp_by_arg (g ! length xs) (g ! Suc (length xs))) = diff"
    by (cases ys) (auto simp: g_def diff_def comp_by_arg_def nth_append N_def)
  define old where "old = (if diff then [hd ys] else [])"
  define zs where "zs = (if diff then tl ys else ys)"
  have ys: "ys = old @ zs" by (cases ys) (auto simp: old_def zs_def diff_def)
  have lo: "length old \<le> 1" by (simp add: old_def)
  have old_eq: "\<forall>x\<in>set old. arg x = a"
    using ys_ge by (cases ys) (auto simp: old_def diff_def)
  have zs_gt: "\<forall>x\<in>set zs. a < arg x"
  proof (cases ys)
    case Nil
    then show ?thesis using ys by simp
  next
    case (Cons y ys')
    have "\<forall>x\<in>set ys'. arg y < arg x" using sys Cons by (simp add: comp_by_arg_def)
    moreover have "\<not> arg y < a" using ys_ge Cons by simp
    ultimately show ?thesis using Cons by (auto simp: zs_def diff_def)
  qed
  define f' where "f' = xs @ [N] @ zs"
  have szs: "sorted_wrt comp_by_arg zs" using sys ys by (simp add: sorted_wrt_append)
  have xz: "\<forall>x\<in>set xs. \<forall>y\<in>set zs. arg x < arg y"
    using xs_lt zs_gt less_trans by blast
  have sf': "sorted_wrt comp_by_arg f'"
    using sxs szs xs_lt zs_gt xz
    by (simp add: f'_def sorted_wrt_append comp_by_arg_def N_def)
  have gf': "g = xs @ [N] @ old @ zs" by (simp add: g_def ys)
  have fe: "(if diff then func_erase (Suc (length xs)) g else g) = f'"
    by (auto simp: gf' f'_def old_def func_erase_def)
  have "function (set_value s a v)
          = (if Suc (length xs) \<noteq> length g \<and> \<not> comp_by_arg (g ! length xs) (g ! Suc (length xs))
             then func_erase (Suc (length xs)) g else g)"
    unfolding function_set_value Let_def f_def [symmetric] N_def [symmetric] i g ..
  then have fun': "function (set_value s a v) = f'"
    unfolding diff_code fe .
  define omit where "omit = (if diff then Suc (length xs) else length g)"
  define s1 where "s1 = s\<lparr>function := g\<rparr>"
  have lold: "length old = (if diff then 1 else 0)" by (simp add: old_def)
  have lg: "length g = Suc (length xs + length old + length zs)" by (simp add: gf')
  have lf': "length f' = Suc (length xs + length zs)" by (simp add: f'_def)
  have fe_omit: "func_erase omit g = f'"
    using fe by (cases diff) (simp_all add: omit_def func_erase_end)
  have lm_code: "is_local_maximum g j omit
                 = is_local_maximum f' (if j < omit then j else j - Suc 0) (length f')"
    if j: "j < length g" "j \<noteq> omit" for j
  proof (cases diff)
    case True
    then have o: "omit < length g" by (simp add: omit_def lg lold)
    have "length g - Suc 0 = length f'" using True by (simp add: lg lf' lold)
    then show ?thesis using is_local_maximum_omit [OF o j] fe_omit by simp
  next
    case False
    then have "omit = length g" "g = f'" using fe by (simp_all add: omit_def)
    then show ?thesis using j by simp
  qed
  define ex where "ex \<longleftrightarrow> xs = []"
  define ez where "ez \<longleftrightarrow> zs = []"
  have lft: "left_of (length xs) omit = (if ex then None else Some (length xs - Suc 0))"
    by (auto simp: left_of_def omit_def lg ex_def)
  have rgt: "right_of (length g) (length xs) omit
             = (if ez then None else Some (Suc (length xs + length old)))"
    by (cases diff) (auto simp: right_of_def omit_def lg lold ez_def)
  have gl: "g ! (length xs - Suc 0) = last xs" if "\<not> ex"
    using that by (simp add: g_def nth_append last_conv_nth ex_def)
  have gr: "g ! Suc (length xs + length old) = hd zs" if "\<not> ez"
    using that nth_append_length_plus [of "xs @ [N] @ old" zs 0]
    by (simp add: gf' hd_conv_nth ez_def)
  have gi: "g ! length xs = N" by (simp add: g_def)
  have io: "length xs < omit" "omit \<le> length g" by (simp_all add: omit_def lg)
  have sN: "is_local_maximum g (length xs) omit = is_local_maximum f' (length xs) (length f')"
    using lm_code [of "length xs"] io by simp
  have sL: "is_local_maximum g (length xs - Suc 0) omit
            = is_local_maximum f' (length xs - Suc 0) (length f')" if "\<not> ex"
  proof -
    have "length xs - Suc 0 < omit" "length xs - Suc 0 < length g" using io by linarith+
    then show ?thesis using lm_code [of "length xs - Suc 0"] by simp
  qed
  have sR: "is_local_maximum g (Suc (length xs + length old)) omit
            = is_local_maximum f' (Suc (length xs)) (length f')" if "\<not> ez"
  proof (cases diff)
    case True
    then have "omit < Suc (length xs + length old)" "Suc (length xs + length old) < length g"
      "Suc (length xs + length old) - Suc 0 = Suc (length xs)"
      using that by (simp_all add: omit_def lg lold ez_def)
    then show ?thesis using lm_code [of "Suc (length xs + length old)"] by simp
  next
    case False
    then have "Suc (length xs + length old) < omit" "Suc (length xs + length old) < length g"
      "Suc (length xs + length old) = Suc (length xs)"
      using that by (simp_all add: omit_def lg lold ez_def)
    then show ?thesis using lm_code [of "Suc (length xs + length old)"] by simp
  qed
  have ne: "g ! l \<noteq> g ! r"
    if "left_of (length xs) omit = Some l" "right_of (length g) (length xs) omit = Some r" for l r
  proof -
    have x: "\<not> ex" "l = length xs - Suc 0" using that(1) lft by (auto split: if_splits)
    have z: "\<not> ez" "r = Suc (length xs + length old)" using that(2) rgt by (auto split: if_splits)
    have "arg (last xs) < a" "a < arg (hd zs)" using x z xs_lt zs_gt by (simp_all add: ex_def ez_def)
    then show ?thesis using gl [OF x(1)] gr [OF z(1)] x z by auto
  qed
  define M where "M = mset (maxima s)"
  define M1 where "M1 = (if is_local_maximum f' (length xs) (length f') then add_mset N M else M)"
  define M2 where "M2 = (if ex then M1
       else settle (is_local_maximum f' (length xs - Suc 0) (length f')) (last xs) M1)"
  define M3 where "M3 = (if ez then M2
       else settle (is_local_maximum f' (Suc (length xs)) (length f')) (hd zs) M2)"
  have s1: "function s1 = g" "maxima s1 = maxima s" by (simp_all add: s1_def)
  have msrt1: "sorted_wrt mx_le (maxima s1)" using msrt by (simp add: s1)
  have ne1: "function s1 ! l \<noteq> function s1 ! r"
    if "left_of (length xs) omit = Some l"
      "right_of (length (function s1)) (length xs) omit = Some r" for l r
    using ne that by (simp add: s1)
  have eff2: "sorted_wrt mx_le (maxima (update_maxima s1 (length xs) omit))"
    using msrt1 ne1 by (rule update_maxima_effect(2))
  have "mset (maxima (update_maxima s1 (length xs) omit)) =
         (let g = function s1;
              M1 = (if is_local_maximum g (length xs) omit
                    then add_mset (g ! length xs) (mset (maxima s1)) else mset (maxima s1));
              M2 = (case left_of (length xs) omit of None \<Rightarrow> M1
                    | Some l \<Rightarrow> settle (is_local_maximum g l omit) (g ! l) M1)
          in case right_of (length g) (length xs) omit of None \<Rightarrow> M2
             | Some r \<Rightarrow> settle (is_local_maximum g r omit) (g ! r) M2)"
    using msrt1 ne1 by (rule update_maxima_effect(3))
  then have eff3: "mset (maxima (update_maxima s1 (length xs) omit)) = M3"
    unfolding Let_def s1 lft rgt gi sN
    by (cases ex; cases ez)
       (simp_all add: M3_def M2_def M1_def M_def gl gr sL sR)
  have pm: "(if length xs \<noteq> length f then mx_find (maxima s) (f ! length xs) else None)
            = (if hd old \<in> set (maxima s) then Some (hd old) else None)" if diff
  proof -
    have "ys \<noteq> []" "old = [hd ys]" using that by (simp_all add: diff_def old_def)
    then have "length xs \<noteq> length f" "f ! length xs = hd old"
      by (simp_all add: f hd_conv_nth nth_append)
    then show ?thesis using mx_find_sorted [OF msrt] by simp
  qed
  have mx': "maxima (set_value s a v)
         = (if diff then mx_erase (if hd old \<in> set (maxima s) then Some (hd old) else None)
                          (maxima (update_maxima s1 (length xs) omit))
            else maxima (update_maxima s1 (length xs) omit))"
    unfolding maxima_set_value Let_def f_def [symmetric] N_def [symmetric] i g diff_code
      s1_def [symmetric] omit_def [symmetric]
    using pm by simp
  have "mset (maxima (set_value s a v))
          = M3 - (if old \<noteq> [] \<and> hd old \<in># M then {#hd old#} else {#})"
    unfolding mx' using eff3 by (auto simp: mset_mx_erase M_def old_def)
  also have "\<dots> = mset (local_maxima (xs @ [N] @ zs))"
  proof (rule maxima_transition [where ?M1.0 = M1 and ?M2.0 = M2])
    show "sorted_wrt comp_by_arg (xs @ old @ zs)" using srt f ys by simp
    show "sorted_wrt comp_by_arg (xs @ [N] @ zs)" using sf' by (simp add: f'_def)
    show "length old \<le> 1" by (rule lo)
    show "length [N] \<le> 1" by simp
    show "M = mset (local_maxima (xs @ old @ zs))" using mM f ys by (simp add: M_def)
    show "M1 = (if [N] \<noteq> [] \<and> is_local_maximum (xs @ [N] @ zs) (length xs) (length (xs @ [N] @ zs))
                   then add_mset (hd [N]) M else M)"
      by (simp add: M1_def f'_def)
    show "M2 = (if xs = [] then M1
                   else settle (is_local_maximum (xs @ [N] @ zs) (length xs - 1) (length (xs @ [N] @ zs)))
                          (last xs) M1)"
      by (simp add: M2_def f'_def ex_def)
    show "M3 = (if zs = [] then M2
                   else settle (is_local_maximum (xs @ [N] @ zs) (length xs + length [N])
                                  (length (xs @ [N] @ zs))) (hd zs) M2)"
      by (simp add: M3_def f'_def ez_def)
  qed
  finally have mset': "mset (maxima (set_value s a v)) = mset (local_maxima f')"
    by (simp add: f'_def)
  have srt': "sorted_wrt mx_le (maxima (set_value s a v))"
    unfolding mx' using eff2 by (simp add: sorted_mx_erase)
  have "invariant (set_value s a v)"
    unfolding invariant_def fun' using sf' srt' mset' by simp
  moreover have "function s = xs @ old @ zs" using f ys by (simp add: f_def)
  ultimately show ?thesis using fun' lo xs_lt old_eq zs_gt
    unfolding f'_def N_def by blast
qed

lemma erase_shape:
  fixes s :: "('a::linorder, 'v::linorder) FunctionMaxima"
  assumes inv: "invariant s"
  shows "(a \<notin> arg ` set (function s) \<and> erase s a = s)
       \<or> (\<exists>xs p zs. function s = xs @ [p] @ zs \<and> arg p = a
             \<and> function (erase s a) = xs @ zs
             \<and> (\<forall>x\<in>set xs. arg x < a) \<and> (\<forall>x\<in>set zs. a < arg x)
             \<and> invariant (erase s a))"
proof -
  define f where "f = function s"
  define xs where "xs = takeWhile (\<lambda>p. arg p < a) f"
  define ys where "ys = dropWhile (\<lambda>p. arg p < a) f"
  have srt: "sorted_wrt comp_by_arg f" and msrt: "sorted_wrt mx_le (maxima s)"
    and mM: "mset (maxima s) = mset (local_maxima f)"
    using inv by (simp_all add: invariant_def f_def)
  have f: "f = xs @ ys" by (simp add: xs_def ys_def)
  have i: "func_lower_bound f a = length xs" by (simp add: func_lower_bound_def xs_def)
  have xs_lt: "\<forall>x\<in>set xs. arg x < a" unfolding xs_def by (rule takeWhile_args)
  have ys_ge: "\<forall>y\<in>set ys. \<not> arg y < a" unfolding ys_def using srt by (rule dropWhile_args)
  have sxs: "sorted_wrt comp_by_arg xs" and sys: "sorted_wrt comp_by_arg ys"
    using srt f by (simp_all add: sorted_wrt_append)
  define diff where "diff \<longleftrightarrow> ys \<noteq> [] \<and> \<not> a < arg (hd ys)"
  have find: "func_find f a = (if diff then length xs else length f)"
  proof -
    have "func_find f a = (if length xs \<noteq> length f \<and> \<not> a < arg (f ! length xs)
                           then length xs else length f)"
      by (simp add: func_find_def i Let_def)
    moreover have "(length xs \<noteq> length f \<and> \<not> a < arg (f ! length xs)) = diff"
      by (cases ys) (auto simp: diff_def f nth_append)
    ultimately show ?thesis by simp
  qed
  show ?thesis
  proof (cases diff)
    case False
    have "arg y \<noteq> a" if "y \<in> set f" for y
    proof (cases "y \<in> set xs")
      case True
      then show ?thesis using xs_lt by auto
    next
      case ny: False
      then have y: "y \<in> set ys" using that f by simp
      then obtain h t where ht: "ys = h # t" by (cases ys) auto
      have "a < arg h" using False ht by (simp add: diff_def)
      moreover have "\<forall>x\<in>set t. arg h < arg x" using sys ht by (simp add: comp_by_arg_def)
      ultimately have "a < arg y" using y ht by auto
      then show ?thesis by simp
    qed
    then have "a \<notin> arg ` set (function s)" by (auto simp: f_def)
    moreover have "erase s a = s"
      using False find by (simp add: erase_def Let_def end_fm_def f_def [symmetric])
    ultimately show ?thesis by simp
  next
    case True
    define p where "p = hd ys"
    define zs where "zs = tl ys"
    have ys: "ys = [p] @ zs" using True by (simp add: diff_def p_def zs_def)
    have "\<not> a < arg p" using True by (simp add: diff_def p_def)
    moreover have "\<not> arg p < a" using ys_ge ys by simp
    ultimately have pa: "arg p = a" by (metis linorder_neqE)
    have zs_gt: "\<forall>x\<in>set zs. a < arg x"
      using sys ys pa by (simp add: comp_by_arg_def)
    have szs: "sorted_wrt comp_by_arg zs" using sys ys by simp
    define f' where "f' = xs @ zs"
    have xz: "\<forall>x\<in>set xs. \<forall>y\<in>set zs. arg x < arg y"
      using xs_lt zs_gt less_trans by blast
    have sf': "sorted_wrt comp_by_arg f'"
      using sxs szs xz by (simp add: f'_def sorted_wrt_append comp_by_arg_def)
    have ff: "f = xs @ [p] @ zs" using f ys by simp
    have it: "func_find f a = length xs" "length xs \<noteq> length f" "f ! length xs = p"
      using find True by (simp_all add: ff)
    have fe: "func_erase (length xs) f = f'" by (simp add: func_erase_def ff f'_def)
    have fun': "function (erase s a) = f'"
      unfolding function_erase Let_def f_def [symmetric] it using it(2) fe by simp
    define ex where "ex \<longleftrightarrow> xs = []"
    define ez where "ez \<longleftrightarrow> zs = []"
    have lf: "length f = Suc (length xs + length zs)" by (simp add: ff)
    have lf': "length f' = length xs + length zs" by (simp add: f'_def)
    have lm_code: "is_local_maximum f j (length xs)
                   = is_local_maximum f' (if j < length xs then j else j - Suc 0) (length f')"
      if j: "j < length f" "j \<noteq> length xs" for j
    proof -
      have o: "length xs < length f" by (simp add: lf)
      have "length f - Suc 0 = length f'" by (simp add: lf lf')
      then show ?thesis using is_local_maximum_omit [OF o j] fe by simp
    qed
    have lft: "left_of (length xs) (length xs) = (if ex then None else Some (length xs - Suc 0))"
      by (cases xs) (auto simp: left_of_def ex_def)
    have rgt: "right_of (length f) (length xs) (length xs)
               = (if ez then None else Some (Suc (length xs)))"
      by (auto simp: right_of_def lf ez_def)
    have gl: "f ! (length xs - Suc 0) = last xs" if "\<not> ex"
      using that by (simp add: ff nth_append last_conv_nth ex_def)
    have gr: "f ! Suc (length xs) = hd zs" if "\<not> ez"
      using that by (simp add: ff hd_conv_nth ez_def nth_append)
    have sN: "is_local_maximum f (length xs) (length xs) = False"
      by (simp add: is_local_maximum_def)
    have sL: "is_local_maximum f (length xs - Suc 0) (length xs)
              = is_local_maximum f' (length xs - Suc 0) (length f')" if "\<not> ex"
    proof -
      have "length xs - Suc 0 < length xs" "length xs - Suc 0 < length f"
        using that by (simp_all add: ex_def lf)
      then show ?thesis using lm_code [of "length xs - Suc 0"] by simp
    qed
    have sR: "is_local_maximum f (Suc (length xs)) (length xs)
              = is_local_maximum f' (length xs) (length f')" if "\<not> ez"
    proof -
      have "Suc (length xs) < length f" using that by (simp add: ez_def lf)
      then show ?thesis using lm_code [of "Suc (length xs)"] by simp
    qed
    have ne: "f ! l \<noteq> f ! r"
      if "left_of (length xs) (length xs) = Some l"
        "right_of (length f) (length xs) (length xs) = Some r" for l r
    proof -
      have x: "\<not> ex" "l = length xs - Suc 0" using that(1) lft by (auto split: if_splits)
      have z: "\<not> ez" "r = Suc (length xs)" using that(2) rgt by (auto split: if_splits)
      have "arg (last xs) < a" "a < arg (hd zs)"
        using x z xs_lt zs_gt by (simp_all add: ex_def ez_def)
      then show ?thesis using gl [OF x(1)] gr [OF z(1)] x z by auto
    qed
    define M where "M = mset (maxima s)"
    define M2 where "M2 = (if ex then M
         else settle (is_local_maximum f' (length xs - Suc 0) (length f')) (last xs) M)"
    define M3 where "M3 = (if ez then M2
         else settle (is_local_maximum f' (length xs) (length f')) (hd zs) M2)"
    have ne1: "function s ! l \<noteq> function s ! r"
      if "left_of (length xs) (length xs) = Some l"
        "right_of (length (function s)) (length xs) (length xs) = Some r" for l r
      using ne that by (simp add: f_def)
    have eff2: "sorted_wrt mx_le (maxima (update_maxima s (length xs) (length xs)))"
      using msrt ne1 by (rule update_maxima_effect(2))
    have "mset (maxima (update_maxima s (length xs) (length xs))) =
         (let g = function s;
              M1 = (if is_local_maximum g (length xs) (length xs)
                    then add_mset (g ! length xs) (mset (maxima s)) else mset (maxima s));
              M2 = (case left_of (length xs) (length xs) of None \<Rightarrow> M1
                    | Some l \<Rightarrow> settle (is_local_maximum g l (length xs)) (g ! l) M1)
          in case right_of (length g) (length xs) (length xs) of None \<Rightarrow> M2
             | Some r \<Rightarrow> settle (is_local_maximum g r (length xs)) (g ! r) M2)"
      using msrt ne1 by (rule update_maxima_effect(3))
    then have eff3: "mset (maxima (update_maxima s (length xs) (length xs))) = M3"
      unfolding Let_def f_def [symmetric] lft rgt sN
      by (cases ex; cases ez) (simp_all add: M3_def M2_def M_def gl gr sL sR)
    have mx': "maxima (erase s a)
         = mx_erase (if p \<in> set (maxima s) then Some p else None)
                    (maxima (update_maxima s (length xs) (length xs)))"
      unfolding maxima_erase Let_def f_def [symmetric] it
      using it(2) mx_find_sorted [OF msrt] by simp
    have "mset (maxima (erase s a))
          = M3 - (if [p] \<noteq> [] \<and> hd [p] \<in># M then {#hd [p]#} else {#})"
      unfolding mx' using eff3 by (auto simp: mset_mx_erase M_def)
    also have "\<dots> = mset (local_maxima (xs @ [] @ zs))"
    proof (rule maxima_transition [where ?M1.0 = M and ?M2.0 = M2])
      show "sorted_wrt comp_by_arg (xs @ [p] @ zs)" using srt ff by simp
      show "sorted_wrt comp_by_arg (xs @ [] @ zs)" using sf' by (simp add: f'_def)
      show "length [p] \<le> 1" by simp
      show "length ([] :: ('a, 'v) point list) \<le> 1" by simp
      show "M = mset (local_maxima (xs @ [p] @ zs))" using mM ff by (simp add: M_def)
      show "M = (if [] \<noteq> [] \<and> is_local_maximum (xs @ [] @ zs) (length xs) (length (xs @ [] @ zs))
                   then add_mset (hd []) M else M)"
        by simp
      show "M2 = (if xs = [] then M
                   else settle (is_local_maximum (xs @ [] @ zs) (length xs - 1) (length (xs @ [] @ zs)))
                          (last xs) M)"
        by (simp add: M2_def f'_def ex_def)
      show "M3 = (if zs = [] then M2
                   else settle (is_local_maximum (xs @ [] @ zs) (length xs + length [])
                                  (length (xs @ [] @ zs))) (hd zs) M2)"
        by (simp add: M3_def f'_def ez_def)
    qed
    finally have mset': "mset (maxima (erase s a)) = mset (local_maxima f')"
      by (simp add: f'_def)
    have srt': "sorted_wrt mx_le (maxima (erase s a))"
      unfolding mx' using eff2 by (simp add: sorted_mx_erase)
    have "invariant (erase s a)"
      unfolding invariant_def fun' using sf' srt' mset' by simp
    moreover have "function s = xs @ [p] @ zs" using ff by (simp add: f_def)
    ultimately show ?thesis using fun' pa xs_lt zs_gt
      unfolding f'_def by blast
  qed
qed


section \<open>Executions in which nothing throws\<close>

lemma and_then_returns [simp]: "and_then (returns x) k = k x"
  by (rule ext) (simp add: and_then_def returns_def)

lemma and_then_Returns: "m e = (Returns x, e') \<Longrightarrow> and_then m k e = k x e'"
  by (simp add: and_then_def)

lemma may_throw_no_fuel: "fuel e = None \<Longrightarrow> may_throw site e = (Returns (), e)"
  by (simp add: may_throw_def)

lemma value_less_no_fuel:
  "fuel e = None \<Longrightarrow> value_less p q e = (Returns (value p < value q), e)"
  by (simp add: value_less_def and_then_def may_throw_no_fuel returns_def)

lemma is_local_maximum_exc_no_fuel:
  assumes "fuel e = None"
  shows "is_local_maximum_exc it omit_it e
         = (Returns (is_local_maximum (function (this e)) it omit_it), e)"
proof -
  have v: "and_then (value_less p q) k e = k (value p < value q) e" for p q and k :: "bool \<Rightarrow> ('a, 'b, bool) action"
    using assms by (simp add: and_then_Returns value_less_no_fuel)
  let ?f = "function (this e)"
  define bl where "bl \<longleftrightarrow> it \<noteq> 0 \<and>
              (if it - 1 \<noteq> omit_it then value (?f ! it) < value (?f ! (it - 1))
               else it - 1 \<noteq> 0 \<and> value (?f ! it) < value (?f ! (it - 2)))"
  define br where "br \<longleftrightarrow> Suc it \<noteq> length ?f \<and>
              (if Suc it \<noteq> omit_it then value (?f ! it) < value (?f ! Suc it)
               else Suc (Suc it) \<noteq> length ?f \<and> value (?f ! it) < value (?f ! Suc (Suc it)))"
  have l: "and_then (if it \<noteq> 0
                 then (if it - 1 \<noteq> omit_it then value_less (?f ! it) (?f ! (it - 1))
                       else if it - 1 \<noteq> 0 then value_less (?f ! it) (?f ! (it - 2))
                       else returns False)
                 else returns False) k e = k bl e" for k :: "bool \<Rightarrow> ('a, 'b, bool) action"
    by (simp add: bl_def v)
  have r: "and_then (if Suc it \<noteq> length ?f
                           then (if Suc it \<noteq> omit_it then value_less (?f ! it) (?f ! Suc it)
                                 else if Suc (Suc it) \<noteq> length ?f
                                 then value_less (?f ! it) (?f ! Suc (Suc it))
                                 else returns False)
                           else returns False) k e = k br e" for k :: "bool \<Rightarrow> ('a, 'b, bool) action"
    by (simp add: br_def v)
  have "is_local_maximum_exc it omit_it e
          = (if it = omit_it then (Returns False, e)
             else if bl then (Returns False, e) else (Returns (\<not> br), e))"
    unfolding is_local_maximum_exc_def Let_def l by (simp add: r returns_def)
  moreover have "is_local_maximum ?f it omit_it
          = (if it = omit_it then False else if bl then False else if br then False else True)"
    unfolding is_local_maximum_def bl_def br_def by (rule refl)
  ultimately show ?thesis by simp
qed

lemma maxima_find_no_fuel:
  "fuel e = None \<Longrightarrow> maxima_find p e = (Returns (mx_find (maxima (this e)) p), e)"
  by (simp add: maxima_find_def and_then_def may_throw_no_fuel)

lemma maxima_insert_no_fuel:
  "fuel e = None \<Longrightarrow> maxima_insert p e
     = (Returns (Some p), e\<lparr>this := (this e)\<lparr>maxima := mx_insert p (maxima (this e))\<rparr>\<rparr>)"
  by (simp add: maxima_insert_def and_then_def may_throw_no_fuel)

lemma push_back_no_fuel:
  "fuel e = None \<Longrightarrow> push_back it e
     = (Returns (), e\<lparr>maxima_rollback := maxima_rollback e @ [it]\<rparr>)"
  by (simp add: push_back_def and_then_def may_throw_no_fuel)

lemma stopped_being_maximum_exc_no_fuel:
  assumes "fuel e = None"
  shows "\<exists>e'. stopped_being_maximum_exc cpy_it omit_it e
               = (Returns (fst (stopped_being_maximum (this e) cpy_it omit_it)), e')
             \<and> this e' = snd (stopped_being_maximum (this e) cpy_it omit_it)
             \<and> fuel e' = None"
  using assms
  by (simp add: stopped_being_maximum_exc_def stopped_being_maximum_def Let_def
        and_then_def maxima_find_no_fuel is_local_maximum_exc_no_fuel maxima_insert_no_fuel
        push_back_no_fuel returns_def)

lemma update_maxima_exc_left:
  "(case safe_decrement it of
      (False, _) \<Rightarrow> returns None
    | (True, cpy_it) \<Rightarrow>
        if cpy_it \<noteq> omit_it then stopped_being_maximum_exc cpy_it omit_it
        else (case safe_decrement cpy_it of
                (False, _) \<Rightarrow> returns None
              | (True, cpy_it') \<Rightarrow> stopped_being_maximum_exc cpy_it' omit_it))
   = (case left_of it omit_it of None \<Rightarrow> returns None
      | Some l \<Rightarrow> stopped_being_maximum_exc l omit_it)"
  apply (cases "it = 0")
   apply (simp add: safe_decrement_def left_of_def)
  apply (cases "it - 1 = omit_it")
   apply (cases "it - 1 = 0")
    apply (simp add: safe_decrement_def left_of_def)
   apply (simp add: safe_decrement_def left_of_def)
   apply (metis One_nat_def Suc_1 diff_diff_left plus_1_eq_Suc)
  apply (simp add: safe_decrement_def left_of_def)
  done

lemma update_maxima_exc_right:
  "(if Suc it \<noteq> n
    then (if Suc it \<noteq> omit_it then stopped_being_maximum_exc (Suc it) omit_it
          else if Suc (Suc it) \<noteq> n
          then stopped_being_maximum_exc (Suc (Suc it)) omit_it
          else returns None)
    else returns None)
   = (case right_of n it omit_it of None \<Rightarrow> returns None
      | Some r \<Rightarrow> stopped_being_maximum_exc r omit_it)"
  by (simp add: right_of_def)

lemma neighbour_exc_no_fuel:
  assumes "fuel e = None"
  shows "\<exists>e'. (case t of None \<Rightarrow> returns None
                | Some c \<Rightarrow> stopped_being_maximum_exc c omit_it) e
               = (Returns (fst (case t of None \<Rightarrow> (None, this e)
                                | Some c \<Rightarrow> stopped_being_maximum (this e) c omit_it)), e')
             \<and> this e' = snd (case t of None \<Rightarrow> (None, this e)
                                | Some c \<Rightarrow> stopped_being_maximum (this e) c omit_it)
             \<and> fuel e' = None"
proof (cases t)
  case None
  then show ?thesis using assms by (simp add: returns_def)
next
  case (Some c)
  then show ?thesis using stopped_being_maximum_exc_no_fuel [OF assms, where cpy_it = c and omit_it = omit_it] by simp
qed

lemma update_maxima_exc_no_fuel:
  assumes nf: "fuel e = None"
  shows "\<exists>e'. update_maxima_exc it omit_it e = (Returns (), e')
             \<and> this e' = update_maxima (this e) it omit_it \<and> fuel e' = None"
proof -
  let ?s = "this e" and ?f = "function (this e)"
  define b where "b = is_local_maximum ?f it omit_it"
  define s1 where "s1 = (if b then ?s\<lparr>maxima := mx_insert (?f ! it) (maxima ?s)\<rparr> else ?s)"
  obtain e1 where e1:
    "(if b then and_then (maxima_insert (?f ! it)) push_back else returns ()) e = (Returns (), e1)"
    "this e1 = s1" "fuel e1 = None"
    using nf
    by (cases b) (simp_all add: s1_def returns_def and_then_def maxima_insert_no_fuel push_back_no_fuel)
  define p2 where "p2 = (case left_of it omit_it of None \<Rightarrow> (None, s1)
                        | Some l \<Rightarrow> stopped_being_maximum s1 l omit_it)"
  have p2': "p2 = (case left_of it omit_it of None \<Rightarrow> (None, this e1)
                   | Some l \<Rightarrow> stopped_being_maximum (this e1) l omit_it)"
    unfolding p2_def e1(2) by (rule refl)
  obtain e2 where e2:
    "(case left_of it omit_it of None \<Rightarrow> returns None
      | Some l \<Rightarrow> stopped_being_maximum_exc l omit_it) e1 = (Returns (fst p2), e2)"
    "this e2 = snd p2" "fuel e2 = None"
    using neighbour_exc_no_fuel [OF e1(3), where t = "left_of it omit_it" and omit_it = omit_it]
    unfolding p2' [symmetric] by blast
  have f2: "function (snd p2) = ?f"
    by (simp add: p2_def s1_def split: option.splits)
  define p3 where "p3 = (case right_of (length (function (snd p2))) it omit_it of
                          None \<Rightarrow> (None, snd p2)
                        | Some r \<Rightarrow> stopped_being_maximum (snd p2) r omit_it)"
  have p3': "p3 = (case right_of (length ?f) it omit_it of None \<Rightarrow> (None, this e2)
                   | Some r \<Rightarrow> stopped_being_maximum (this e2) r omit_it)"
    unfolding p3_def f2 e2(2) by (rule refl)
  obtain e3 where e3:
    "(case right_of (length ?f) it omit_it of None \<Rightarrow> returns None
      | Some r \<Rightarrow> stopped_being_maximum_exc r omit_it) e2 = (Returns (fst p3), e3)"
    "this e3 = snd p3" "fuel e3 = None"
    using neighbour_exc_no_fuel [OF e2(3), where t = "right_of (length ?f) it omit_it" and omit_it = omit_it]
    unfolding p3' [symmetric] by blast
  define e4 where
    "e4 = e3\<lparr>this := (snd p3)\<lparr>maxima := mx_erase (fst p3) (mx_erase (fst p2) (maxima (snd p3)))\<rparr>\<rparr>"
  have pure: "update_maxima ?s it omit_it
          = (snd p3)\<lparr>maxima := mx_erase (fst p3) (mx_erase (fst p2) (maxima (snd p3)))\<rparr>"
    unfolding p3_def p2_def s1_def b_def
    by (simp add: update_maxima_alt Let_def case_prod_beta)
  have "update_maxima_exc it omit_it e = (Returns (), e4)"
    unfolding update_maxima_exc_def Let_def update_maxima_exc_left update_maxima_exc_right
    using nf e1 e2 e3
    by (simp add: and_then_def is_local_maximum_exc_no_fuel b_def [symmetric] maxima_erase_def e4_def)
  moreover have "this e4 = update_maxima ?s it omit_it" "fuel e4 = None"
    using pure e3 by (simp_all add: e4_def)
  ultimately show ?thesis by blast
qed

lemma function_find_no_fuel:
  "fuel e = None \<Longrightarrow> function_find a e = (Returns (func_find (function (this e)) a), e)"
  by (simp add: function_find_def and_then_def may_throw_no_fuel)

lemma function_lower_bound_no_fuel:
  "fuel e = None \<Longrightarrow>
     function_lower_bound a e = (Returns (func_lower_bound (function (this e)) a), e)"
  by (simp add: function_lower_bound_def and_then_def may_throw_no_fuel)

lemma function_insert_no_fuel:
  "fuel e = None \<Longrightarrow> function_insert hint p e
     = (Returns hint, e\<lparr>this := (this e)\<lparr>function := func_insert hint p (function (this e))\<rparr>\<rparr>)"
  by (simp add: function_insert_def and_then_def may_throw_no_fuel)

lemma new_point_no_fuel:
  "fuel e = None \<Longrightarrow> new_point a v e = (Returns \<lparr>arg = a, value = v\<rparr>, e)"
  by (simp add: new_point_def and_then_def may_throw_no_fuel returns_def)

lemma value_at_exc_no_fuel:
  "fuel e = None \<Longrightarrow>
     value_at_exc a e = ((case value_at (this e) a of Inl x \<Rightarrow> Throws x | Inr v \<Rightarrow> Returns v), e)"
  by (simp add: value_at_exc_def value_at_def and_then_def function_find_no_fuel Let_def)

lemma erase_exc_no_fuel:
  assumes "fuel e = None"
  shows "fst (erase_exc a e) = Returns () \<and> this (snd (erase_exc a e)) = erase (this e) a"
proof -
  let ?e0 = "e\<lparr>maxima_rollback := []\<rparr>"
  let ?f = "function (this e)"
  have nf: "fuel ?e0 = None" using assms by simp
  show ?thesis
  proof (cases "func_find ?f a = length ?f")
    case True
    then have "erase_try a ?e0 = (Returns None, ?e0)"
      using nf by (simp add: erase_try_def and_then_def function_find_no_fuel end_fm_def returns_def)
    then show ?thesis using True by (simp add: erase_exc_def erase_def Let_def end_fm_def)
  next
    case False
    let ?it = "func_find ?f a"
    obtain e1 where e1: "update_maxima_exc ?it ?it ?e0 = (Returns (), e1)"
      "this e1 = update_maxima (this e) ?it ?it" "fuel e1 = None"
      using update_maxima_exc_no_fuel [OF nf, of ?it ?it] by auto
    have "erase_try a ?e0 = (Returns (Some (?it, mx_find (maxima (this e)) (?f ! ?it))), e1)"
      using nf False e1(1)
      by (simp add: erase_try_def and_then_def function_find_no_fuel end_fm_def returns_def
            maxima_find_no_fuel)
    then show ?thesis using False e1(2)
      by (simp add: erase_exc_def erase_def Let_def end_fm_def and_then_def function_erase_def
            maxima_erase_def)
  qed
qed

lemma set_value_exc_no_fuel:
  assumes "fuel e = None"
  shows "fst (set_value_exc a v e) = Returns ()
       \<and> this (snd (set_value_exc a v e)) = set_value (this e) a v"
proof -
  let ?e0 = "e\<lparr>maxima_rollback := []\<rparr>"
  let ?f = "function (this e)"
  let ?N = "\<lparr>arg = a, value = v\<rparr>"
  let ?i = "func_lower_bound ?f a"
  let ?pm = "(if ?i \<noteq> length ?f then mx_find (maxima (this e)) (?f ! ?i) else None)"
  let ?s1 = "(this e)\<lparr>function := func_insert ?i ?N ?f\<rparr>"
  let ?g = "func_insert ?i ?N ?f"
  have nf: "fuel ?e0 = None" using assms by simp
  define e1 where "e1 = ?e0\<lparr>this := ?s1\<rparr>"
  have e1: "this e1 = ?s1" "fuel e1 = None" using assms by (simp_all add: e1_def)
  have t1: "set_value_try1 a v ?e0 = (Returns (?i, Suc ?i, ?i = length ?f, ?pm), e1)"
    using nf
    by (simp add: set_value_try1_def and_then_def new_point_no_fuel function_lower_bound_no_fuel
          end_fm_def Let_def maxima_find_no_fuel returns_def function_insert_no_fuel e1_def)
  define diff where "diff \<longleftrightarrow> Suc ?i \<noteq> length ?g \<and> \<not> comp_by_arg (?g ! ?i) (?g ! Suc ?i)"
  have "?i \<le> length ?f" by (simp add: func_lower_bound_def length_takeWhile_le)
  then have "length ?g = Suc (length ?f)" by (simp add: func_insert_def)
  then have d: "(?i \<noteq> length ?f \<and> \<not> comp_by_arg (?g ! ?i) (?g ! Suc ?i)) = diff"
    by (simp add: diff_def)
  obtain e2 where e2:
    "update_maxima_exc ?i (if diff then Suc ?i else length ?g) e1 = (Returns (), e2)"
    "this e2 = update_maxima ?s1 ?i (if diff then Suc ?i else length ?g)" "fuel e2 = None"
    using update_maxima_exc_no_fuel [OF e1(2), of ?i "if diff then Suc ?i else length ?g"] e1(1)
    by auto
  have t2: "set_value_try2 ?i (Suc ?i) (?i = length ?f) e1 = (Returns diff, e2)"
    using e1 e2(1) d
    by (cases "?i = length ?f")
       (auto simp: set_value_try2_def and_then_def may_throw_no_fuel returns_def Let_def)
  have pure: "set_value (this e) a v
      = (if diff
         then (update_maxima ?s1 ?i (Suc ?i))
                \<lparr>maxima := mx_erase ?pm (maxima (update_maxima ?s1 ?i (Suc ?i))),
                 function := func_erase (Suc ?i) (function (update_maxima ?s1 ?i (Suc ?i)))\<rparr>
         else update_maxima ?s1 ?i (length ?g))"
    by (simp add: set_value_def Let_def end_fm_def diff_def)
  show ?thesis
    using t1 t2 e2(2)
    by (simp add: set_value_exc_def pure and_then_def maxima_erase_def function_erase_def)
qed


section \<open>Reachable states\<close>

lemma invariant_empty: "invariant empty_fm"
  by (simp add: invariant_def empty_fm_def local_maxima_def)

lemma invariant_set_value: "invariant s \<Longrightarrow> invariant (set_value s a v)"
  using set_value_shape [of s a v] by blast

lemma invariant_erase: "invariant s \<Longrightarrow> invariant (erase s a)"
  using erase_shape [of s a] by auto

lemma invariant_do_call: "invariant s \<Longrightarrow> invariant (do_call s c)"
  by (cases c) (simp_all add: invariant_set_value invariant_erase)

lemma invariant_run: "invariant (run cs)"
proof (induction cs rule: rev_induct)
  case Nil
  then show ?case by (simp add: run_def invariant_empty)
next
  case (snoc c cs)
  then show ?case by (simp add: run_def invariant_do_call)
qed

lemma invariant_distinct_maxima: "invariant s \<Longrightarrow> distinct (maxima s)"
proof -
  assume inv: "invariant s"
  then have "distinct (local_maxima (function s))"
    by (simp add: invariant_def sorted_args_distinct distinct_local_maxima)
  moreover have "mset (maxima s) = mset (local_maxima (function s))"
    using inv by (simp add: invariant_def)
  ultimately show ?thesis by (metis mset_eq_imp_distinct_iff)
qed

lemma invariant_set_maxima:
  "invariant s \<Longrightarrow> set (maxima s) = set (local_maxima (function s))"
  by (metis invariant_def mset_eq_setD)

text \<open>
  Where no call throws, the invariant I1 holds: in every state reached from the empty
  structure by calls of \<open>set_value\<close> and \<open>erase\<close> in which nothing throws, the listing of
  the maxima index holds exactly the points of the store at which \<open>is_local_maximum\<close>
  holds with nothing omitted, each of them once.
\<close>

lemma maxima_index_exact_without_throw:
  fixes cs :: "('a::linorder, 'v::linorder) call list"
  shows "set (mx_begin_end (run cs))
           = {function (run cs) ! i | i.
                i < size_fm (run cs) \<and> is_local_maximum (function (run cs)) i (end_fm (run cs))}
         \<and> distinct (mx_begin_end (run cs))"
proof -
  have inv: "invariant (run cs)" by (rule invariant_run)
  have "set (local_maxima (function (run cs)))
          = {function (run cs) ! i | i.
                i < size_fm (run cs) \<and> is_local_maximum (function (run cs)) i (end_fm (run cs))}"
    by (auto simp: in_local_maxima_iff size_fm_def end_fm_def)
  then show ?thesis
    using invariant_set_maxima [OF inv] invariant_distinct_maxima [OF inv]
    by (simp add: mx_begin_end_def)
qed

section \<open>Lookup, insertion and removal\<close>

lemma value_at_sorted:
  fixes s :: "('a::linorder, 'v) FunctionMaxima"
  assumes srt: "sorted_wrt comp_by_arg (function s)"
  shows "value_at s b = (case filter (\<lambda>p. arg p = b) (function s) of
                           [] \<Rightarrow> Inl InvalidArg | p # _ \<Rightarrow> Inr (value p))"
proof -
  define f where "f = function s"
  define xs where "xs = takeWhile (\<lambda>p. arg p < b) f"
  define ys where "ys = dropWhile (\<lambda>p. arg p < b) f"
  have f: "f = xs @ ys" unfolding xs_def ys_def by (rule takeWhile_dropWhile_id [symmetric])
  have i: "func_lower_bound f b = length xs" by (simp add: func_lower_bound_def xs_def)
  have xs_lt: "\<forall>x\<in>set xs. arg x < b" unfolding xs_def by (rule takeWhile_args)
  have ys_ge: "\<forall>y\<in>set ys. \<not> arg y < b"
    unfolding ys_def using srt [folded f_def] by (rule dropWhile_args)
  have sys: "sorted_wrt comp_by_arg ys" using srt f by (simp add: f_def [symmetric] sorted_wrt_append)
  have fx: "filter (\<lambda>p. arg p = b) xs = []" using xs_lt by (auto simp: filter_empty_conv)
  have va: "value_at s b = (if length xs \<noteq> length f \<and> \<not> b < arg (f ! length xs)
                           then Inr (value (f ! length xs)) else Inl InvalidArg)"
    by (simp add: value_at_def func_find_def Let_def end_fm_def f_def [symmetric] i)
  show ?thesis
  proof (cases ys)
    case Nil
    then show ?thesis using va fx f by (simp add: f_def [symmetric])
  next
    case (Cons y t)
    have fy: "f ! length xs = y" "length xs \<noteq> length f" using Cons f by simp_all
    show ?thesis
    proof (cases "b < arg y")
      case True
      have "\<forall>x\<in>set t. arg y < arg x" using sys Cons by (simp add: comp_by_arg_def)
      then have "\<forall>x\<in>set ys. b < arg x" using True Cons less_trans by (metis set_ConsD)
      then have "filter (\<lambda>p. arg p = b) ys = []" by (auto simp: filter_empty_conv)
      then show ?thesis using va fx f fy True by (simp add: f_def [symmetric])
    next
      case False
      moreover have "\<not> arg y < b" using ys_ge Cons by simp
      ultimately have "arg y = b" by (metis linorder_neqE)
      then show ?thesis using va fx f fy False Cons by (simp add: f_def [symmetric])
    qed
  qed
qed

lemma in_domain_filter:
  "in_domain s a \<longleftrightarrow> filter (\<lambda>p. arg p = a) (function s) \<noteq> []"
  by (auto simp: in_domain_def filter_empty_conv)

text \<open>
  C5 (round trip). In every reachable state, after \<open>set_value(a, v)\<close> has returned,
  \<open>value_at(a)\<close> returns \<open>v\<close>.
\<close>

theorem set_value_then_value_at:
  fixes cs :: "('a::linorder, 'v::linorder) call list"
  shows "value_at (set_value (run cs) a v) a = Inr v"
proof -
  have inv: "invariant (run cs)" by (rule invariant_run)
  then obtain xs old zs where sh:
    "function (set_value (run cs) a v) = xs @ [\<lparr>arg = a, value = v\<rparr>] @ zs"
    "\<forall>x\<in>set xs. arg x < a" "\<forall>x\<in>set zs. a < arg x" "invariant (set_value (run cs) a v)"
    using set_value_shape [of "run cs" a v] by blast
  have "filter (\<lambda>p. arg p = a) xs = []" "filter (\<lambda>p. arg p = a) zs = []"
    using sh(2,3) by (auto simp: filter_empty_conv)
  then have "filter (\<lambda>p. arg p = a) (function (set_value (run cs) a v)) = [\<lparr>arg = a, value = v\<rparr>]"
    using sh(1) by simp
  moreover have "sorted_wrt comp_by_arg (function (set_value (run cs) a v))"
    using sh(4) by (simp add: invariant_def)
  ultimately show ?thesis by (simp add: value_at_sorted)
qed

lemma value_at_InvalidArg_iff:
  "sorted_wrt comp_by_arg (function s) \<Longrightarrow> value_at s a = Inl InvalidArg \<longleftrightarrow> \<not> in_domain s a"
  by (simp add: value_at_sorted in_domain_filter split: list.splits)

text \<open>
  C6 (erase effect). In every reachable state, after \<open>erase(a)\<close> has returned,
  \<open>value_at(a)\<close> throws \<open>InvalidArg\<close>; \<open>size()\<close> has gone down by exactly one if and only
  if \<open>a\<close> was in the domain before the call; and when \<open>a\<close> was not in the domain the
  object is as it was, so \<open>size()\<close> and the listing of the maxima are unchanged.
\<close>

theorem erase_effect:
  fixes cs :: "('a::linorder, 'v::linorder) call list"
  shows "value_at (erase (run cs) a) a = Inl InvalidArg
       \<and> (size_fm (erase (run cs) a) + 1 = size_fm (run cs) \<longleftrightarrow> in_domain (run cs) a)
       \<and> (\<not> in_domain (run cs) a \<longrightarrow>
            erase (run cs) a = run cs
            \<and> size_fm (erase (run cs) a) = size_fm (run cs)
            \<and> mx_begin_end (erase (run cs) a) = mx_begin_end (run cs))"
proof -
  let ?s = "run cs"
  have inv: "invariant ?s" by (rule invariant_run)
  then have srt: "sorted_wrt comp_by_arg (function ?s)" by (simp add: invariant_def)
  consider (absent) "a \<notin> arg ` set (function ?s)" "erase ?s a = ?s"
    | (present) xs p zs where "function ?s = xs @ [p] @ zs" "arg p = a"
        "function (erase ?s a) = xs @ zs" "\<forall>x\<in>set xs. arg x < a" "\<forall>x\<in>set zs. a < arg x"
        "invariant (erase ?s a)"
    using erase_shape [OF inv, of a] by blast
  then show ?thesis
  proof cases
    case absent
    then have nd: "\<not> in_domain ?s a" by (simp add: in_domain_def)
    then have "value_at ?s a = Inl InvalidArg" using srt by (simp add: value_at_InvalidArg_iff)
    then show ?thesis using absent(2) nd by simp
  next
    case present
    have d: "in_domain ?s a" using present(1,2) by (auto simp: in_domain_def)
    have "\<not> in_domain (erase ?s a) a"
      using present(3,4,5) by (auto simp: in_domain_def)
    moreover have "sorted_wrt comp_by_arg (function (erase ?s a))"
      using present(6) by (simp add: invariant_def)
    ultimately have "value_at (erase ?s a) a = Inl InvalidArg"
      by (simp add: value_at_InvalidArg_iff)
    moreover have "size_fm (erase ?s a) + 1 = size_fm ?s"
      using present(1,3) by (simp add: size_fm_def)
    ultimately show ?thesis using d by simp
  qed
qed

theorem erase_effect_witness:
  "\<not> in_domain (run [Set_value (1::int) (5::int)]) 2
   \<and> erase (run [Set_value (1::int) (5::int)]) 2 = run [Set_value 1 5]
   \<and> in_domain (run [Set_value (1::int) (5::int)]) 1
   \<and> size_fm (erase (run [Set_value (1::int) (5::int)]) 1) + 1 = size_fm (run [Set_value (1::int) (5::int)])"
proof -
  have 1: "\<not> in_domain (run [Set_value (1::int) (5::int)]) 2" by code_simp
  have 2: "in_domain (run [Set_value (1::int) (5::int)]) 1" by code_simp
  show ?thesis
    using erase_effect [of "[Set_value (1::int) (5::int)]" 2]
      erase_effect [of "[Set_value (1::int) (5::int)]" 1] 1 2
    by simp
qed

text \<open>
  C10 (size and frame of \<open>set_value\<close>). In every reachable state, after
  \<open>set_value(a, v)\<close> has returned, \<open>size()\<close> is one more than before if \<open>a\<close> was not in
  the domain and the same if it was, and \<open>value_at(b)\<close> gives for every argument \<open>b\<close>
  other than \<open>a\<close> what it gave before the call (the value, or \<open>InvalidArg\<close>).
\<close>

theorem set_value_size_and_frame:
  fixes cs :: "('a::linorder, 'v::linorder) call list"
  shows "size_fm (set_value (run cs) a v)
           = (if in_domain (run cs) a then size_fm (run cs) else size_fm (run cs) + 1)
       \<and> (\<forall>b. b \<noteq> a \<longrightarrow> value_at (set_value (run cs) a v) b = value_at (run cs) b)"
proof -
  let ?s = "run cs"
  have inv: "invariant ?s" by (rule invariant_run)
  then have srt: "sorted_wrt comp_by_arg (function ?s)" by (simp add: invariant_def)
  obtain xs old zs where sh:
    "function ?s = xs @ old @ zs"
    "function (set_value ?s a v) = xs @ [\<lparr>arg = a, value = v\<rparr>] @ zs"
    "length old \<le> 1" "\<forall>x\<in>set xs. arg x < a" "\<forall>x\<in>set old. arg x = a"
    "\<forall>x\<in>set zs. a < arg x" "invariant (set_value ?s a v)"
    using set_value_shape [OF inv, of a v] by blast
  have srt': "sorted_wrt comp_by_arg (function (set_value ?s a v))"
    using sh(7) by (simp add: invariant_def)
  have "in_domain ?s a \<longleftrightarrow> old \<noteq> []"
  proof
    assume "in_domain ?s a"
    then obtain x where "x \<in> set (xs @ old @ zs)" "arg x = a"
      using sh(1) by (auto simp: in_domain_def)
    then have "x \<in> set old" using sh(4,6) by auto
    then show "old \<noteq> []" by auto
  next
    assume "old \<noteq> []"
    then obtain x where "x \<in> set old" by (cases old) auto
    then show "in_domain ?s a" using sh(1,5) by (auto simp: in_domain_def)
  qed
  moreover have "old \<noteq> [] \<Longrightarrow> length old = 1" using sh(3) by (cases old) auto
  ultimately have size: "size_fm (set_value ?s a v)
           = (if in_domain ?s a then size_fm ?s else size_fm ?s + 1)"
    using sh(1,2) by (auto simp: size_fm_def)
  have frame: "value_at (set_value ?s a v) b = value_at ?s b" if "b \<noteq> a" for b
  proof -
    have "filter (\<lambda>p. arg p = b) old = []" using sh(5) that by (auto simp: filter_empty_conv)
    then have "filter (\<lambda>p. arg p = b) (function (set_value ?s a v))
               = filter (\<lambda>p. arg p = b) (function ?s)"
      using that by (simp add: sh(1,2))
    then show ?thesis by (simp add: value_at_sorted [OF srt] value_at_sorted [OF srt'])
  qed
  show ?thesis using size frame by blast
qed

theorem set_value_size_and_frame_witness:
  "size_fm (set_value (run [Set_value (1::int) (5::int)]) 2 7) = 2
   \<and> (2::int) \<noteq> 1
   \<and> value_at (set_value (run [Set_value (1::int) (5::int)]) 2 7) 1 = Inr 5"
proof -
  have 1: "\<not> in_domain (run [Set_value (1::int) (5::int)]) 2" by code_simp
  have 2: "size_fm (run [Set_value (1::int) (5::int)]) = 1" by code_simp
  have 3: "value_at (run [Set_value (1::int) (5::int)]) 1 = Inr 5" by code_simp
  show ?thesis
    using set_value_size_and_frame [of "[Set_value (1::int) (5::int)]" 2 7] 1 2 3
    by simp
qed


section \<open>The local-maximum predicate\<close>

lemma upt_rev_filter_Suc:
  "filter P (rev [0..<Suc n]) = (if P n then n # filter P (rev [0..<n]) else filter P (rev [0..<n]))"
  by simp

lemma left_of_nearest_before: "left_of p omit = nearest_before p omit"
proof (cases p)
  case 0
  then show ?thesis by (simp add: left_of_def nearest_before_def)
next
  case (Suc n)
  show ?thesis
  proof (cases "n = omit")
    case False
    then show ?thesis using Suc by (simp add: left_of_def nearest_before_def)
  next
    case True
    show ?thesis
    proof (cases n)
      case 0
      then show ?thesis using Suc True by (simp add: left_of_def nearest_before_def)
    next
      case (Suc k)
      then have "k \<noteq> omit" using True by simp
      then show ?thesis using \<open>p = Suc n\<close> Suc True
        by (simp add: left_of_def nearest_before_def)
    qed
  qed
qed

lemma right_of_nearest_after:
  assumes "p < n"
  shows "right_of n p omit = nearest_after n p omit"
proof (cases "Suc p = n")
  case True
  then show ?thesis by (simp add: right_of_def nearest_after_def)
next
  case False
  then have lt: "Suc p < n" using assms by simp
  then have u: "[Suc p..<n] = Suc p # [Suc (Suc p)..<n]" by (simp add: upt_conv_Cons)
  show ?thesis
  proof (cases "Suc p = omit")
    case ne: False
    then show ?thesis using False u by (simp add: right_of_def nearest_after_def)
  next
    case eq: True
    show ?thesis
    proof (cases "Suc (Suc p) = n")
      case True
      then show ?thesis using eq False u by (simp add: right_of_def nearest_after_def)
    next
      case nn: False
      then have "Suc (Suc p) < n" using lt by simp
      then have "[Suc (Suc p)..<n] = Suc (Suc p) # [Suc (Suc (Suc p))..<n]"
        by (simp add: upt_conv_Cons)
      moreover have "Suc (Suc p) \<noteq> omit" using eq by simp
      ultimately show ?thesis using eq False nn u
        by (simp add: right_of_def nearest_after_def)
    qed
  qed
qed

text \<open>
  C3 (the predicate with an omitted position). For a store \<open>f\<close>, a position \<open>p\<close> in it
  and any omitted position, \<open>is_local_maximum(p, omit)\<close> holds if and only if \<open>p\<close> is not
  the omitted position, the nearest position before \<open>p\<close> other than the omitted one, when
  there is one, holds a value that is not greater than the value at \<open>p\<close>, and likewise
  for the nearest position after \<open>p\<close>. A side without such a position constrains
  nothing.
\<close>

theorem is_local_maximum_with_omission:
  fixes f :: "('a, 'v::linorder) point list"
  assumes "p < length f"
  shows "is_local_maximum f p omit \<longleftrightarrow>
           p \<noteq> omit
         \<and> (case nearest_before p omit of None \<Rightarrow> True
             | Some l \<Rightarrow> value (f ! l) \<le> value (f ! p))
         \<and> (case nearest_after (length f) p omit of None \<Rightarrow> True
             | Some r \<Rightarrow> value (f ! r) \<le> value (f ! p))"
  unfolding is_local_maximum_iff left_of_nearest_before right_of_nearest_after [OF assms]
  by (simp add: not_less split: option.splits)

theorem is_local_maximum_with_omission_witness:
  "(1::nat) < length [\<lparr>arg = 1::int, value = 4::int\<rparr>, \<lparr>arg = 2, value = 3\<rparr>, \<lparr>arg = 3, value = 9\<rparr>]
   \<and> (is_local_maximum [\<lparr>arg = 1::int, value = 4::int\<rparr>, \<lparr>arg = 2, value = 3\<rparr>, \<lparr>arg = 3, value = 9\<rparr>] 1 0
        \<longleftrightarrow> (9::int) \<le> 3)"
proof -
  let ?f = "[\<lparr>arg = 1::int, value = 4::int\<rparr>, \<lparr>arg = 2, value = 3\<rparr>, \<lparr>arg = 3, value = 9\<rparr>]"
  have 1: "nearest_before 1 0 = None" by code_simp
  have 2: "nearest_after (length ?f) 1 0 = Some 2" by code_simp
  have 3: "(1::nat) < length ?f" by simp
  have "is_local_maximum ?f 1 0 \<longleftrightarrow> (9::int) \<le> 3"
    using is_local_maximum_with_omission [OF 3, of 0] unfolding 1 2 by simp
  then show ?thesis using 3 by blast
qed

lemma is_local_maximum_end:
  fixes f :: "('a, 'v::linorder) point list"
  assumes "i < length f"
  shows "is_local_maximum f i (length f) \<longleftrightarrow>
           (i = 0 \<or> value (f ! (i - 1)) \<le> value (f ! i))
         \<and> (Suc i = length f \<or> value (f ! Suc i) \<le> value (f ! i))"
proof -
  have l: "left_of i (length f) = (if i = 0 then None else Some (i - 1))"
    using assms by (auto simp: left_of_def)
  have r: "right_of (length f) i (length f) = (if Suc i = length f then None else Some (Suc i))"
    using assms by (auto simp: right_of_def)
  show ?thesis using assms unfolding is_local_maximum_iff l r by (auto simp: not_less)
qed

lemma reported_iff:
  fixes cs :: "('a::linorder, 'v::linorder) call list"
  assumes "i < length (function (run cs))"
  shows "function (run cs) ! i \<in> set (maxima (run cs))
         \<longleftrightarrow> is_local_maximum (function (run cs)) i (length (function (run cs)))"
proof -
  have inv: "invariant (run cs)" by (rule invariant_run)
  then have "distinct (function (run cs))" by (simp add: invariant_def sorted_args_distinct)
  then show ?thesis
    using nth_in_local_maxima [OF _ assms] invariant_set_maxima [OF inv] by simp
qed

text \<open>
  C4, as the code has it. A point at position \<open>i\<close> in argument order is a local maximum
  if and only if (\<open>i\<close> is first, or the value before it is not greater than its value)
  and (\<open>i\<close> is last, or the value after it is not greater). In particular, in every
  state reached from the empty structure by calls of \<open>set_value\<close> and \<open>erase\<close> in which
  nothing throws, of three argument-adjacent points with equal values the middle one is
  reported as a maximum, the first is reported if and only if it is first in the store
  or the value before it is not greater, and the third if and only if it is last in the
  store or the value after it is not greater.
\<close>

theorem local_maximum_non_strict_plateau:
  fixes cs :: "('a::linorder, 'v::linorder) call list"
  assumes i: "i < length f"
  shows "(is_local_maximum f i (length f) \<longleftrightarrow>
            (i = 0 \<or> value (f ! (i - 1)) \<le> value (f ! i))
          \<and> (Suc i = length f \<or> value (f ! Suc i) \<le> value (f ! i)))
       \<and> (f = function (run cs) \<and> i + 2 < length f \<and> value (f ! i) = value (f ! (i + 1))
              \<and> value (f ! (i + 1)) = value (f ! (i + 2)) \<longrightarrow>
            f ! (i + 1) \<in> set (mx_begin_end (run cs))
          \<and> (f ! i \<in> set (mx_begin_end (run cs))
               \<longleftrightarrow> i = 0 \<or> value (f ! (i - 1)) \<le> value (f ! i))
          \<and> (f ! (i + 2) \<in> set (mx_begin_end (run cs))
               \<longleftrightarrow> i + 3 = length f \<or> value (f ! (i + 3)) \<le> value (f ! (i + 2))))"
proof -
  have plateau: "f ! (i + 1) \<in> set (mx_begin_end (run cs))
          \<and> (f ! i \<in> set (mx_begin_end (run cs))
               \<longleftrightarrow> i = 0 \<or> value (f ! (i - 1)) \<le> value (f ! i))
          \<and> (f ! (i + 2) \<in> set (mx_begin_end (run cs))
               \<longleftrightarrow> i + 3 = length f \<or> value (f ! (i + 3)) \<le> value (f ! (i + 2)))"
    if f: "f = function (run cs)" and lt: "i + 2 < length f"
      and e1: "value (f ! i) = value (f ! (i + 1))"
      and e2: "value (f ! (i + 1)) = value (f ! (i + 2))"
  proof -
    have rep: "f ! j \<in> set (mx_begin_end (run cs)) \<longleftrightarrow> is_local_maximum f j (length f)"
      if "j < length f" for j
      using reported_iff [of j cs] that by (simp add: f mx_begin_end_def)
    have a: "i < length f" "i + 1 < length f" using lt by simp_all
    have m0: "is_local_maximum f i (length f) \<longleftrightarrow> i = 0 \<or> value (f ! (i - 1)) \<le> value (f ! i)"
      using is_local_maximum_end [OF a(1)] lt e1 by auto
    have m1: "is_local_maximum f (i + 1) (length f)"
      using is_local_maximum_end [OF a(2)] lt e1 e2 by auto
    have m2: "is_local_maximum f (i + 2) (length f)
               \<longleftrightarrow> i + 3 = length f \<or> value (f ! (i + 3)) \<le> value (f ! (i + 2))"
      using is_local_maximum_end [OF lt] e2 by (auto simp: numeral_3_eq_3)
    show ?thesis using rep [OF a(1)] rep [OF a(2)] rep [OF lt] m0 m1 m2 by simp
  qed
  show ?thesis using is_local_maximum_end [OF i] plateau by blast
qed

theorem local_maximum_non_strict_plateau_witness:
  "(1::nat) < length (function plateau_example)
   \<and> function plateau_example
       = function (run [Set_value 1 5, Set_value 2 3, Set_value 3 3, Set_value (4::int) (3::int)])
   \<and> 1 + 2 < length (function plateau_example)
   \<and> value (function plateau_example ! 1) = value (function plateau_example ! (1 + 1))
   \<and> value (function plateau_example ! (1 + 1)) = value (function plateau_example ! (1 + 2))
   \<and> function plateau_example ! (1 + 1) \<in> set (mx_begin_end plateau_example)
   \<and> function plateau_example ! 1 \<notin> set (mx_begin_end plateau_example)"
proof -
  have f: "function plateau_example
           = [\<lparr>arg = 1, value = 5\<rparr>, \<lparr>arg = 2, value = 3\<rparr>, \<lparr>arg = 3, value = 3\<rparr>, \<lparr>arg = 4, value = 3\<rparr>]"
    by code_simp
  have g: "function plateau_example
           = function (run [Set_value 1 5, Set_value 2 3, Set_value 3 3, Set_value (4::int) (3::int)])"
    by (simp add: plateau_example_def)
  have i: "(1::nat) < length (function plateau_example)" by (simp add: f)
  show ?thesis
    using local_maximum_non_strict_plateau
            [OF i, of "[Set_value 1 5, Set_value 2 3, Set_value 3 3, Set_value (4::int) (3::int)]"] g
    by (simp add: f plateau_example_def [symmetric])
qed

text \<open>
  C4 as the specification states it fails: in the store \<open>(1,5), (2,3), (3,3), (4,3)\<close>
  the points at arguments 2, 3 and 4 are adjacent and have equal values, and the point
  at argument 2 is not a maximum, because the value at argument 1 is greater.
\<close>

theorem plateau_counterexample:
  "function plateau_example
     = [\<lparr>arg = 1, value = 5\<rparr>, \<lparr>arg = 2, value = 3\<rparr>, \<lparr>arg = 3, value = 3\<rparr>, \<lparr>arg = 4, value = 3\<rparr>]
   \<and> mx_begin_end plateau_example
     = [\<lparr>arg = 1, value = 5\<rparr>, \<lparr>arg = 3, value = 3\<rparr>, \<lparr>arg = 4, value = 3\<rparr>]
   \<and> \<lparr>arg = 2, value = 3\<rparr> \<notin> set (mx_begin_end plateau_example)"
  by code_simp

section \<open>Exceptions\<close>

lemma this_may_throw: "this (snd (may_throw site e)) = this e"
  by (simp add: may_throw_def split: option.splits nat.splits)

lemma this_value_at_exc: "this (snd (value_at_exc a e)) = this e"
proof -
  obtain r e' where m: "may_throw Multiset_call e = (r, e')" by fastforce
  then have "this e' = this e" using this_may_throw [of Multiset_call e] by simp
  then show ?thesis using m
    by (cases r) (simp_all add: value_at_exc_def function_find_def and_then_def)
qed

text \<open>
  C7 (\<open>value_at\<close>). In every reachable state, when no comparison throws, \<open>value_at(a)\<close>
  throws \<open>InvalidArg\<close> if and only if \<open>a\<close> is not in the domain, and returns a value
  otherwise; and however the call ends, it leaves the object as it was.
\<close>

theorem value_at_contract:
  fixes cs :: "('a::linorder, 'v::linorder) call list"
  shows "(fst (value_at_exc a (start (run cs) None)) = Throws InvalidArg
            \<longleftrightarrow> \<not> in_domain (run cs) a)
       \<and> ((\<exists>v. fst (value_at_exc a (start (run cs) None)) = Returns v) \<longleftrightarrow> in_domain (run cs) a)
       \<and> (value_at (run cs) a = Inl InvalidArg \<longleftrightarrow> \<not> in_domain (run cs) a)
       \<and> (\<forall>k. this (snd (value_at_exc a (start (run cs) k))) = run cs)"
proof -
  have inv: "invariant (run cs)" by (rule invariant_run)
  then have srt: "sorted_wrt comp_by_arg (function (run cs))" by (simp add: invariant_def)
  have p: "value_at (run cs) a = Inl InvalidArg \<longleftrightarrow> \<not> in_domain (run cs) a"
    using srt by (rule value_at_InvalidArg_iff)
  have e: "value_at_exc a (start (run cs) None)
           = ((case value_at (run cs) a of Inl x \<Rightarrow> Throws x | Inr v \<Rightarrow> Returns v),
              start (run cs) None)"
    using value_at_exc_no_fuel [of "start (run cs) None" a] by (simp add: start_def)
  have only: "value_at (run cs) a = Inl x \<Longrightarrow> x = InvalidArg" for x
    by (simp add: value_at_def Let_def split: if_splits)
  have 1: "fst (value_at_exc a (start (run cs) None)) = Throws InvalidArg
            \<longleftrightarrow> \<not> in_domain (run cs) a"
    using p only by (cases "value_at (run cs) a") (auto simp: e)
  have 2: "(\<exists>v. fst (value_at_exc a (start (run cs) None)) = Returns v) \<longleftrightarrow> in_domain (run cs) a"
    using p only by (cases "value_at (run cs) a") (auto simp: e)
  have 3: "this (snd (value_at_exc a (start (run cs) k))) = run cs" for k
    using this_value_at_exc [of a "start (run cs) k"] by (simp add: start_def)
  show ?thesis using 1 2 p 3 by blast
qed

text \<open>
  C2 (strong exception safety) fails where the allocation inside
  \<open>rollback.push_back\<close> throws: the element that \<open>maxima.insert\<close> has just added is not in
  the log, so the \<open>catch\<close> block leaves it in \<open>maxima\<close>. In the empty structure,
  \<open>set_value(1, 1)\<close> performs six operations that may throw (two allocations of the
  point, \<open>lower_bound\<close>, the insertion into \<open>function\<close>, the insertion into \<open>maxima\<close>,
  \<open>push_back\<close>); when one of the first five throws, the structure is empty again, and when
  the sixth throws, \<open>function\<close> is empty and \<open>maxima\<close> holds the point. Likewise
  \<open>erase(2)\<close> in the store \<open>(1,1), (2,5), (3,1)\<close>, when the sixth operation
  (\<open>push_back\<close> for the left neighbour) throws, leaves the store as it was and the point
  \<open>(1,1)\<close> in \<open>maxima\<close>.
\<close>

theorem push_back_throw_not_rolled_back:
  "map (\<lambda>k. this (snd (set_value_exc (1::int) (1::int) (start empty_fm (Some k))))) [0, 1, 2, 3, 4]
     = [empty_fm, empty_fm, empty_fm, empty_fm, empty_fm]
   \<and> set_value_exc (1::int) (1::int) (start empty_fm (Some 5))
     = (Throws (Propagated Push_back),
        \<lparr>this = \<lparr>function = [], maxima = [\<lparr>arg = 1, value = 1\<rparr>]\<rparr>,
         maxima_rollback = [], fuel = None\<rparr>)
   \<and> run [Set_value 1 1, Set_value 2 5, Set_value 3 1]
     = \<lparr>function = [\<lparr>arg = 1::int, value = 1::int\<rparr>, \<lparr>arg = 2, value = 5\<rparr>, \<lparr>arg = 3, value = 1\<rparr>],
        maxima = [\<lparr>arg = 2, value = 5\<rparr>]\<rparr>
   \<and> erase_exc (2::int) (start (run [Set_value 1 1, Set_value 2 5, Set_value 3 (1::int)]) (Some 5))
     = (Throws (Propagated Push_back),
        \<lparr>this = \<lparr>function = [\<lparr>arg = 1, value = 1\<rparr>, \<lparr>arg = 2, value = 5\<rparr>, \<lparr>arg = 3, value = 1\<rparr>],
                 maxima = [\<lparr>arg = 2, value = 5\<rparr>, \<lparr>arg = 1, value = 1\<rparr>]\<rparr>,
         maxima_rollback = [], fuel = None\<rparr>)"
  by code_simp

text \<open>
  C1 (invariant I1) is lost by the defect shown for C2. The call \<open>set_value(1, 1)\<close> on
  the empty structure whose \<open>rollback.push_back\<close> throws leaves a state with an empty
  store and the point \<open>(1,1)\<close> in the maxima listing, which is therefore not the set
  of the points of the store at which \<open>is_local_maximum\<close> holds. The stale entry
  stays: after a following \<open>set_value(2, 5)\<close> in which nothing throws, the store is
  \<open>(2,5)\<close>, its only local maximum is \<open>(2,5)\<close>, and the listing is \<open>(2,5), (1,1)\<close>.
\<close>

theorem stale_maximum_after_push_back_throw:
  "fst (set_value_exc (1::int) (1::int) (start empty_fm (Some 5))) = Throws (Propagated Push_back)
   \<and> begin_end after_failed_set_value = []
   \<and> mx_begin_end after_failed_set_value = [\<lparr>arg = 1, value = 1\<rparr>]
   \<and> set (mx_begin_end after_failed_set_value)
       \<noteq> {function after_failed_set_value ! i | i.
            i < size_fm after_failed_set_value
            \<and> is_local_maximum (function after_failed_set_value) i (end_fm after_failed_set_value)}
   \<and> fst (set_value_exc 2 5 (start after_failed_set_value None)) = Returns ()
   \<and> this (snd (set_value_exc 2 5 (start after_failed_set_value None)))
       = \<lparr>function = [\<lparr>arg = 2, value = 5\<rparr>],
          maxima = [\<lparr>arg = 2, value = 5\<rparr>, \<lparr>arg = 1, value = 1\<rparr>]\<rparr>
   \<and> local_maxima [\<lparr>arg = 2::int, value = 5::int\<rparr>] = [\<lparr>arg = 2, value = 5\<rparr>]"
proof -
  have a: "fst (set_value_exc (1::int) (1::int) (start empty_fm (Some 5))) = Throws (Propagated Push_back)
   \<and> begin_end after_failed_set_value = []
   \<and> mx_begin_end after_failed_set_value = [\<lparr>arg = 1, value = 1\<rparr>]
   \<and> fst (set_value_exc 2 5 (start after_failed_set_value None)) = Returns ()
   \<and> this (snd (set_value_exc 2 5 (start after_failed_set_value None)))
       = \<lparr>function = [\<lparr>arg = 2, value = 5\<rparr>],
          maxima = [\<lparr>arg = 2, value = 5\<rparr>, \<lparr>arg = 1, value = 1\<rparr>]\<rparr>
   \<and> local_maxima [\<lparr>arg = 2::int, value = 5::int\<rparr>] = [\<lparr>arg = 2, value = 5\<rparr>]"
    by code_simp
  then have f: "function after_failed_set_value = []"
    and m: "mx_begin_end after_failed_set_value = [\<lparr>arg = 1, value = 1\<rparr>]"
    by (simp_all add: begin_end_def)
  have "set (mx_begin_end after_failed_set_value)
       \<noteq> {function after_failed_set_value ! i | i.
            i < size_fm after_failed_set_value
            \<and> is_local_maximum (function after_failed_set_value) i (end_fm after_failed_set_value)}"
    unfolding m by (simp add: f size_fm_def)
  then show ?thesis using a by simp
qed

section \<open>Copies\<close>

subsection \<open>The heap only grows\<close>

lemma extends_refl: "extends h h"
  by (simp add: extends_def)

lemma extends_length:
  assumes "extends h h'"
  shows "length (arg_cells h) \<le> length (arg_cells h')"
    and "length (value_cells h) \<le> length (value_cells h')"
proof -
  have "length (take (length (arg_cells h)) (arg_cells h')) = length (arg_cells h)"
    using assms by (simp add: extends_def)
  then show "length (arg_cells h) \<le> length (arg_cells h')" by simp
  have "length (take (length (value_cells h)) (value_cells h')) = length (value_cells h)"
    using assms by (simp add: extends_def)
  then show "length (value_cells h) \<le> length (value_cells h')" by simp
qed

lemma extends_trans:
  assumes a: "extends h h'" and b: "extends h' h''"
  shows "extends h h''"
proof -
  have "take (length (arg_cells h)) (take (length (arg_cells h')) (arg_cells h''))
          = take (length (arg_cells h)) (arg_cells h'')"
    using extends_length(1) [OF a] by (simp add: min_absorb1)
  moreover have "take (length (arg_cells h)) (take (length (arg_cells h')) (arg_cells h''))
          = arg_cells h"
    using a b by (simp only: extends_def)
  moreover have "take (length (value_cells h)) (take (length (value_cells h')) (value_cells h''))
          = take (length (value_cells h)) (value_cells h'')"
    using extends_length(2) [OF a] by (simp add: min_absorb1)
  moreover have "take (length (value_cells h)) (take (length (value_cells h')) (value_cells h''))
          = value_cells h"
    using a b by (simp only: extends_def)
  ultimately show ?thesis by (simp only: extends_def)
qed

lemma extends_make_point: "extends h (snd (make_point a v h))"
  by (simp add: extends_def make_point_def)

lemma allocated_extends: "extends h h' \<Longrightarrow> allocated h p \<Longrightarrow> allocated h' p"
  using extends_length [of h h'] by (simp add: allocated_def)

lemma allocated_make_point: "allocated (snd (make_point a v h)) (fst (make_point a v h))"
  by (simp add: allocated_def make_point_def)

lemma point_of_extends:
  assumes e: "extends h h'" and p: "allocated h p"
  shows "point_of h' p = point_of h p"
proof -
  have "arg_cells h ! arg_ptr p = take (length (arg_cells h)) (arg_cells h') ! arg_ptr p"
    using e by (simp add: extends_def)
  also have "\<dots> = arg_cells h' ! arg_ptr p" using p by (simp add: allocated_def)
  finally have 1: "arg_cells h' ! arg_ptr p = arg_cells h ! arg_ptr p" by simp
  have "value_cells h ! value_ptr p = take (length (value_cells h)) (value_cells h') ! value_ptr p"
    using e by (simp add: extends_def)
  also have "\<dots> = value_cells h' ! value_ptr p" using p by (simp add: allocated_def)
  finally have 2: "value_cells h' ! value_ptr p = value_cells h ! value_ptr p" by simp
  show ?thesis by (simp add: point_of_def arg_of_def value_of_def 1 2)
qed

lemma set_mx_insert_sh: "set (mx_insert_sh h p qs) = insert p (set qs)"
  by (induction qs) auto

lemma set_mx_erase_sh: "set (mx_erase_sh it m) \<subseteq> set m"
proof (cases it)
  case None
  then show ?thesis by (simp add: mx_erase_sh_def)
next
  case (Some p)
  then show ?thesis using set_remove1_subset [of p m] by (simp add: mx_erase_sh_def)
qed

lemma from_nodes_refl: "from_nodes s s"
  by (simp add: from_nodes_def)

lemma from_nodes_trans: "from_nodes s s' \<Longrightarrow> from_nodes s' s'' \<Longrightarrow> from_nodes s s''"
  by (auto simp: from_nodes_def)

lemma func_lower_bound_sh_le: "func_lower_bound_sh h f a \<le> length f"
  by (simp add: func_lower_bound_sh_def length_takeWhile_le)

lemma func_find_sh_le: "func_find_sh h f a \<le> length f"
  using func_lower_bound_sh_le [of h f a] by (simp add: func_find_sh_def Let_def)

lemma set_func_erase: "set (func_erase it f) \<subseteq> set f"
  by (auto simp: func_erase_def dest: in_set_takeD in_set_dropD)

lemma set_func_insert: "hint \<le> length f \<Longrightarrow> set (func_insert hint p f) = insert p (set f)"
proof -
  assume "hint \<le> length f"
  have "set f = set (take hint f @ drop hint f)" by simp
  also have "\<dots> = set (take hint f) \<union> set (drop hint f)" by (rule set_append)
  finally show ?thesis by (auto simp: func_insert_def)
qed

subsection \<open>A call keeps to the points of its object and to new ones\<close>

lemma quiet_refl: "quiet e e"
  by (simp add: quiet_def from_nodes_refl)

lemma quiet_trans: "quiet e e' \<Longrightarrow> quiet e' e'' \<Longrightarrow> quiet e e''"
  using from_nodes_trans by (auto simp: quiet_def)

lemma quiet_function: "quiet e e' \<Longrightarrow> function_sh (this_sh e') = function_sh (this_sh e)"
  by (simp add: quiet_def from_nodes_def)

lemma quiet_and_then:
  assumes m: "quiet e (snd (m e))"
    and k: "\<And>x e1. quiet e e1 \<Longrightarrow> quiet e1 (snd (k x e1))"
  shows "quiet e (snd (and_then_sh m k e))"
proof (cases "m e")
  case (Pair r e1)
  have q: "quiet e e1" using m Pair by simp
  show ?thesis
  proof (cases r)
    case (Returns x)
    then show ?thesis
      using quiet_trans [OF q k [OF q, of x]] Pair by (simp add: and_then_sh_def)
  next
    case (Throws x)
    then show ?thesis using q Pair by (simp add: and_then_sh_def)
  qed
qed

lemma quiet_returns: "quiet e (snd (returns_sh x e))"
  by (simp add: returns_sh_def quiet_refl)

lemma quiet_fuel: "quiet e (e\<lparr>fuel_sh := k\<rparr>)"
  by (simp add: quiet_def from_nodes_refl)

lemma quiet_may_throw: "quiet e (snd (may_throw_sh site e))"
  by (simp add: may_throw_sh_def quiet_refl quiet_fuel split: option.splits nat.splits)

lemma quiet_after_may_throw:
  assumes "\<And>e1. quiet e e1 \<Longrightarrow> quiet e1 (snd (k e1))"
  shows "quiet e (snd (and_then_sh (may_throw_sh site) (\<lambda>_. k) e))"
  by (rule quiet_and_then [OF quiet_may_throw]) (rule assms)

lemma quiet_value_less: "quiet e (snd (value_less_sh p q e))"
  unfolding value_less_sh_def by (rule quiet_after_may_throw) (simp add: quiet_refl)

lemma quiet_maxima_find: "quiet e (snd (maxima_find_sh p e))"
  unfolding maxima_find_sh_def by (rule quiet_after_may_throw) (simp add: quiet_refl)

lemma quiet_push_back: "quiet e (snd (push_back_sh it e))"
  unfolding push_back_sh_def
  by (rule quiet_after_may_throw) (simp add: quiet_def from_nodes_refl)

lemma quiet_maxima_insert:
  assumes "p \<in> set (function_sh (this_sh e))"
  shows "quiet e (snd (maxima_insert_sh p e))"
  unfolding maxima_insert_sh_def
proof (rule quiet_after_may_throw)
  fix e1 assume q: "quiet e e1"
  then have "p \<in> set (function_sh (this_sh e1))" using assms by (simp add: quiet_function)
  then show "quiet e1 (snd (Returns (Some p),
       e1\<lparr>this_sh := (this_sh e1)\<lparr>maxima_sh := mx_insert_sh (heap_sh e1) p (maxima_sh (this_sh e1))\<rparr>\<rparr>))"
    by (auto simp: quiet_def from_nodes_def set_mx_insert_sh)
qed

lemma quiet_maxima_erase: "quiet e (snd (maxima_erase_sh it e))"
  using set_mx_erase_sh [of it "maxima_sh (this_sh e)"]
  by (auto simp: maxima_erase_sh_def quiet_def from_nodes_def)

lemma quiet_is_local_maximum_exc: "quiet e (snd (is_local_maximum_exc_sh it omit_it e))"
  unfolding is_local_maximum_exc_sh_def Let_def
  by (auto intro!: quiet_and_then quiet_value_less quiet_returns)

lemma quiet_stopped_being_maximum_exc:
  assumes c: "c < length (function_sh (this_sh e))"
  shows "quiet e (snd (stopped_being_maximum_exc_sh c omit_it e))"
proof -
  have p: "function_sh (this_sh e) ! c \<in> set (function_sh (this_sh e1))" if "quiet e0 e1" "quiet e e0" for e0 e1
    using c that by (simp add: quiet_function)
  show ?thesis
    unfolding stopped_being_maximum_exc_sh_def Let_def
    by (rule quiet_and_then, rule quiet_maxima_find,
        rule quiet_and_then, rule quiet_is_local_maximum_exc)
       (auto intro!: quiet_and_then quiet_maxima_insert quiet_push_back quiet_returns p)
qed

lemma quiet_update_maxima_exc:
  assumes it: "it < length (function_sh (this_sh e))"
  shows "quiet e (snd (update_maxima_exc_sh it omit_it e))"
proof -
  define f where "f = function_sh (this_sh e)"
  have len: "function_sh (this_sh e1) = f" if "quiet e e1" for e1
    using that by (simp add: quiet_function f_def)
  have ins: "quiet e1 (snd ((if b then and_then_sh (maxima_insert_sh (f ! it)) push_back_sh
                             else returns_sh ()) e1))" if q: "quiet e e1" for e1 b
  proof (cases b)
    case True
    have "f ! it \<in> set (function_sh (this_sh e1))" using it len [OF q] by (simp add: f_def)
    then show ?thesis using True
      by (auto intro!: quiet_and_then quiet_maxima_insert quiet_push_back)
  next
    case False
    then show ?thesis by (simp add: quiet_returns)
  qed
  have left: "quiet e1 (snd ((case safe_decrement it of
                      (False, _) \<Rightarrow> returns_sh None
                    | (True, cpy_it) \<Rightarrow>
                        if cpy_it \<noteq> omit_it then stopped_being_maximum_exc_sh cpy_it omit_it
                        else (case safe_decrement cpy_it of
                                (False, _) \<Rightarrow> returns_sh None
                              | (True, cpy_it') \<Rightarrow> stopped_being_maximum_exc_sh cpy_it' omit_it)) e1))"
    if q: "quiet e e1" for e1
    using it len [OF q]
    by (auto simp: safe_decrement_def f_def quiet_returns intro!: quiet_stopped_being_maximum_exc)
  have right: "quiet e1 (snd ((if Suc it \<noteq> length f
                    then (if Suc it \<noteq> omit_it then stopped_being_maximum_exc_sh (Suc it) omit_it
                          else if Suc (Suc it) \<noteq> length f
                          then stopped_being_maximum_exc_sh (Suc (Suc it)) omit_it
                          else returns_sh None)
                    else returns_sh None) e1))"
    if q: "quiet e e1" for e1
    using it len [OF q]
    by (auto simp: f_def quiet_returns intro!: quiet_stopped_being_maximum_exc)
  have erases: "quiet e1 (snd (and_then_sh (maxima_erase_sh l) (\<lambda>_. maxima_erase_sh r) e1))" for e1 l r
    by (rule quiet_and_then, rule quiet_maxima_erase, rule quiet_maxima_erase)
  show ?thesis
    unfolding update_maxima_exc_sh_def Let_def f_def [symmetric]
  proof (rule quiet_and_then, rule quiet_is_local_maximum_exc)
    fix b e1 assume q1: "quiet e e1"
    show "quiet e1 (snd (and_then_sh
                   (if b then and_then_sh (maxima_insert_sh (f ! it)) push_back_sh else returns_sh ())
              (\<lambda>_. and_then_sh
                   (case safe_decrement it of
                      (False, _) \<Rightarrow> returns_sh None
                    | (True, cpy_it) \<Rightarrow>
                        if cpy_it \<noteq> omit_it then stopped_being_maximum_exc_sh cpy_it omit_it
                        else (case safe_decrement cpy_it of
                                (False, _) \<Rightarrow> returns_sh None
                              | (True, cpy_it') \<Rightarrow> stopped_being_maximum_exc_sh cpy_it' omit_it))
              (\<lambda>left. and_then_sh
                   (if Suc it \<noteq> length f
                    then (if Suc it \<noteq> omit_it then stopped_being_maximum_exc_sh (Suc it) omit_it
                          else if Suc (Suc it) \<noteq> length f
                          then stopped_being_maximum_exc_sh (Suc (Suc it)) omit_it
                          else returns_sh None)
                    else returns_sh None)
              (\<lambda>right. and_then_sh (maxima_erase_sh left) (\<lambda>_. maxima_erase_sh right)))) e1))"
    proof (rule quiet_and_then, rule ins [OF q1])
      fix u :: unit and e2 assume q2: "quiet e1 e2"
      have q02: "quiet e e2" by (rule quiet_trans [OF q1 q2])
      show "quiet e2 (snd (and_then_sh
                   (case safe_decrement it of
                      (False, _) \<Rightarrow> returns_sh None
                    | (True, cpy_it) \<Rightarrow>
                        if cpy_it \<noteq> omit_it then stopped_being_maximum_exc_sh cpy_it omit_it
                        else (case safe_decrement cpy_it of
                                (False, _) \<Rightarrow> returns_sh None
                              | (True, cpy_it') \<Rightarrow> stopped_being_maximum_exc_sh cpy_it' omit_it))
              (\<lambda>left. and_then_sh
                   (if Suc it \<noteq> length f
                    then (if Suc it \<noteq> omit_it then stopped_being_maximum_exc_sh (Suc it) omit_it
                          else if Suc (Suc it) \<noteq> length f
                          then stopped_being_maximum_exc_sh (Suc (Suc it)) omit_it
                          else returns_sh None)
                    else returns_sh None)
              (\<lambda>right. and_then_sh (maxima_erase_sh left) (\<lambda>_. maxima_erase_sh right))) e2))"
      proof (rule quiet_and_then, rule left [OF q02])
        fix l e3 assume q3: "quiet e2 e3"
        have q03: "quiet e e3" by (rule quiet_trans [OF q02 q3])
        show "quiet e3 (snd (and_then_sh
                   (if Suc it \<noteq> length f
                    then (if Suc it \<noteq> omit_it then stopped_being_maximum_exc_sh (Suc it) omit_it
                          else if Suc (Suc it) \<noteq> length f
                          then stopped_being_maximum_exc_sh (Suc (Suc it)) omit_it
                          else returns_sh None)
                    else returns_sh None)
              (\<lambda>right. and_then_sh (maxima_erase_sh l) (\<lambda>_. maxima_erase_sh right)) e3))"
          by (rule quiet_and_then, rule right [OF q03], rule erases)
      qed
    qed
  qed
qed

lemma and_then_sh_cases:
  "and_then_sh m k e = (r, e') \<longleftrightarrow>
     (\<exists>x. m e = (Throws x, e') \<and> r = Throws x) \<or> (\<exists>x e1. m e = (Returns x, e1) \<and> k x e1 = (r, e'))"
proof (cases "m e")
  case (Pair r1 e1)
  then show ?thesis by (cases r1) (auto simp: and_then_sh_def)
qed

lemma may_throw_sh_cases:
  "may_throw_sh site e = (r, e') \<Longrightarrow> quiet e e' \<and> heap_sh e' = heap_sh e \<and> this_sh e' = this_sh e"
  by (auto simp: may_throw_sh_def quiet_def from_nodes_refl split: option.splits nat.splits)

lemma function_find_sh_Returns:
  assumes "function_find_sh a e = (Returns x, e1)"
  shows "x \<le> length (function_sh (this_sh e1))"
  using assms func_find_sh_le [of "heap_sh e1" "function_sh (this_sh e1)" a]
  by (auto simp: function_find_sh_def and_then_sh_cases dest: may_throw_sh_cases)

lemma quiet_function_find: "quiet e (snd (function_find_sh a e))"
  unfolding function_find_sh_def
  by (rule quiet_after_may_throw) (simp add: quiet_refl)

lemma function_lower_bound_sh_Returns:
  assumes "function_lower_bound_sh a e = (Returns x, e1)"
  shows "x \<le> length (function_sh (this_sh e1))"
  using assms func_lower_bound_sh_le [of "heap_sh e1" "function_sh (this_sh e1)" a]
  by (auto simp: function_lower_bound_sh_def and_then_sh_cases dest: may_throw_sh_cases)

lemma quiet_function_lower_bound: "quiet e (snd (function_lower_bound_sh a e))"
  unfolding function_lower_bound_sh_def
  by (rule quiet_after_may_throw) (simp add: quiet_refl)

lemma quiet_erase_try: "quiet e (snd (erase_try_sh a e))"
proof (cases "function_find_sh a e")
  case (Pair r e1)
  have q1: "quiet e e1" using quiet_function_find [of e a] Pair by simp
  show ?thesis
  proof (cases r)
    case (Throws x)
    then show ?thesis using Pair q1 by (simp add: erase_try_sh_def and_then_sh_def)
  next
    case (Returns it)
    have le: "it \<le> length (function_sh (this_sh e1))"
      using function_find_sh_Returns Pair Returns by blast
    have eq: "erase_try_sh a e
          = (if it = length (function_sh (this_sh e1)) then returns_sh None e1
               else and_then_sh (maxima_find_sh (function_sh (this_sh e1) ! it))
                      (\<lambda>max_it. and_then_sh (update_maxima_exc_sh it it)
                         (\<lambda>_. returns_sh (Some (it, max_it)))) e1)"
      using Pair Returns by (simp add: erase_try_sh_def and_then_sh_def)
    have "quiet e1 (snd (erase_try_sh a e))"
    proof (cases "it = length (function_sh (this_sh e1))")
      case True
      then show ?thesis by (simp add: eq quiet_returns)
    next
      case False
      then have lt: "it < length (function_sh (this_sh e1))" using le by simp
      have "quiet e1 (snd (and_then_sh (maxima_find_sh (function_sh (this_sh e1) ! it))
                      (\<lambda>max_it. and_then_sh (update_maxima_exc_sh it it)
                         (\<lambda>_. returns_sh (Some (it, max_it)))) e1))"
      proof (rule quiet_and_then, rule quiet_maxima_find)
        fix max_it e2 assume q2: "quiet e1 e2"
        then have lt2: "it < length (function_sh (this_sh e2))" using lt by (simp add: quiet_function)
        show "quiet e2 (snd (and_then_sh (update_maxima_exc_sh it it)
                         (\<lambda>_. returns_sh (Some (it, max_it))) e2))"
          by (rule quiet_and_then, rule quiet_update_maxima_exc [OF lt2], rule quiet_returns)
      qed
      then show ?thesis using False by (simp add: eq)
    qed
    then show ?thesis using q1 quiet_trans by blast
  qed
qed

lemma set_erase_rollback_sh: "set (erase_rollback_sh its m) \<subseteq> set m"
proof (induction its arbitrary: m)
  case Nil
  then show ?case by simp
next
  case (Cons it its)
  show ?case using Cons.IH [of "mx_erase_sh it m"] set_mx_erase_sh [of it m] by auto
qed

lemma quiet_rollback: "quiet e (e\<lparr>maxima_rollback_sh := r\<rparr>)"
  by (simp add: quiet_def from_nodes_refl)

lemma erase_exc_sh_frame:
  "heap_sh (snd (erase_exc_sh a e0)) = heap_sh e0
   \<and> nodes (this_sh (snd (erase_exc_sh a e0))) \<subseteq> nodes (this_sh e0)"
proof (cases "erase_try_sh a (e0\<lparr>maxima_rollback_sh := []\<rparr>)")
  case (Pair r e)
  have "quiet (e0\<lparr>maxima_rollback_sh := []\<rparr>) e"
    using quiet_erase_try [of "e0\<lparr>maxima_rollback_sh := []\<rparr>" a] Pair by simp
  then have q: "quiet e0 e" using quiet_trans [OF quiet_rollback] by blast
  then have h: "heap_sh e = heap_sh e0" and n: "nodes (this_sh e) \<subseteq> nodes (this_sh e0)"
    by (auto simp: quiet_def from_nodes_def nodes_def)
  show ?thesis
  proof (cases r)
    case (Throws x)
    then have "snd (erase_exc_sh a e0)
        = e\<lparr>this_sh := (this_sh e)
                \<lparr>maxima_sh := erase_rollback_sh (maxima_rollback_sh e) (maxima_sh (this_sh e))\<rparr>\<rparr>"
      using Pair by (simp add: erase_exc_sh_def)
    then show ?thesis
      using h n set_erase_rollback_sh [of "maxima_rollback_sh e" "maxima_sh (this_sh e)"]
      by (auto simp: nodes_def)
  next
    case (Returns y)
    show ?thesis
    proof (cases y)
      case None
      then show ?thesis using Pair Returns h n by (simp add: erase_exc_sh_def)
    next
      case (Some im)
      obtain it max_it where im: "im = (it, max_it)" by (cases im)
      have "snd (erase_exc_sh a e0)
        = e\<lparr>this_sh := \<lparr>function_sh = func_erase it (function_sh (this_sh e)),
                         maxima_sh = mx_erase_sh max_it (maxima_sh (this_sh e))\<rparr>\<rparr>"
        using Pair Returns Some im
        by (simp add: erase_exc_sh_def and_then_sh_def function_erase_sh_def maxima_erase_sh_def)
      then show ?thesis
        using h n set_func_erase [of it "function_sh (this_sh e)"]
          set_mx_erase_sh [of max_it "maxima_sh (this_sh e)"]
        by (auto simp: nodes_def)
    qed
  qed
qed

lemma new_point_sh_cases:
  assumes "new_point_sh a v e = (r, e1)"
  shows "this_sh e1 = this_sh e
         \<and> ((\<exists>x. r = Throws x) \<and> heap_sh e1 = heap_sh e
            \<or> r = Returns (fst (make_point a v (heap_sh e)))
              \<and> heap_sh e1 = snd (make_point a v (heap_sh e)))"
  using assms
  by (auto simp: new_point_sh_def and_then_sh_cases dest!: may_throw_sh_cases)

lemma function_lower_bound_sh_cases:
  assumes "function_lower_bound_sh a e = (r, e1)"
  shows "this_sh e1 = this_sh e \<and> heap_sh e1 = heap_sh e
         \<and> (\<forall>x. r = Returns x \<longrightarrow> x \<le> length (function_sh (this_sh e)))"
  using assms func_lower_bound_sh_le [of "heap_sh e1" "function_sh (this_sh e)" a]
  by (auto simp: function_lower_bound_sh_def and_then_sh_cases dest!: may_throw_sh_cases)

lemma maxima_find_sh_cases:
  assumes "maxima_find_sh p e = (r, e1)"
  shows "this_sh e1 = this_sh e \<and> heap_sh e1 = heap_sh e"
  using assms
  by (auto simp: maxima_find_sh_def and_then_sh_cases dest!: may_throw_sh_cases)

lemma function_insert_sh_cases:
  assumes "function_insert_sh hint p e = (r, e1)"
  shows "heap_sh e1 = heap_sh e
         \<and> ((\<exists>x. r = Throws x) \<and> this_sh e1 = this_sh e
            \<or> r = Returns hint
              \<and> this_sh e1 = (this_sh e)\<lparr>function_sh := func_insert hint p (function_sh (this_sh e))\<rparr>)"
  using assms
  by (auto simp: function_insert_sh_def and_then_sh_cases dest!: may_throw_sh_cases)

lemma set_value_try1_sh_cases:
  assumes "set_value_try1_sh a v e0 = (r, e)"
  shows "(\<exists>x. r = Throws x) \<and> this_sh e = this_sh e0
           \<and> (heap_sh e = heap_sh e0 \<or> heap_sh e = snd (make_point a v (heap_sh e0)))
         \<or> (\<exists>i at_end pm. r = Returns (i, Suc i, at_end, pm)
              \<and> i \<le> length (function_sh (this_sh e0))
              \<and> heap_sh e = snd (make_point a v (heap_sh e0))
              \<and> this_sh e = (this_sh e0)\<lparr>function_sh :=
                   func_insert i (fst (make_point a v (heap_sh e0))) (function_sh (this_sh e0))\<rparr>)"
proof -
  obtain r1 e1 where n: "new_point_sh a v e0 = (r1, e1)" by fastforce
  note n1 = new_point_sh_cases [OF n]
  show ?thesis
  proof (cases r1)
    case (Throws x)
    then show ?thesis using assms n n1 by (auto simp: set_value_try1_sh_def and_then_sh_def)
  next
    case (Returns np)
    then have np: "np = fst (make_point a v (heap_sh e0))"
      and h1: "heap_sh e1 = snd (make_point a v (heap_sh e0))" and t1: "this_sh e1 = this_sh e0"
      using n1 by auto
    obtain r2 e2 where l: "function_lower_bound_sh a e1 = (r2, e2)" by fastforce
    note l1 = function_lower_bound_sh_cases [OF l]
    show ?thesis
    proof (cases r2)
      case (Throws x)
      then show ?thesis using assms n Returns l l1 h1 t1
        by (auto simp: set_value_try1_sh_def and_then_sh_def)
    next
      case r2: (Returns i)
      then have i: "i \<le> length (function_sh (this_sh e0))" using l1 t1 by simp
      obtain r3 e3 where f: "(if \<not> i = length (function_sh (this_sh e2))
                              then maxima_find_sh (function_sh (this_sh e2) ! i)
                              else returns_sh None) e2 = (r3, e3)" by fastforce
      have f1: "this_sh e3 = this_sh e2 \<and> heap_sh e3 = heap_sh e2"
        using f maxima_find_sh_cases [of "function_sh (this_sh e2) ! i" e2 r3 e3]
        by (auto simp: returns_sh_def split: if_splits)
      have eq: "set_value_try1_sh a v e0
            = and_then_sh (\<lambda>_. (r3, e3))
                   (\<lambda>prev_max_it. and_then_sh (function_insert_sh i np)
                      (\<lambda>it. returns_sh (it, Suc i, i = length (function_sh (this_sh e2)), prev_max_it))) e2"
        using n Returns l r2 f by (simp add: set_value_try1_sh_def and_then_sh_def Let_def)
      show ?thesis
      proof (cases r3)
        case (Throws x)
        then show ?thesis using assms eq f1 l1 h1 t1 by (auto simp: and_then_sh_def)
      next
        case r3: (Returns pm)
        obtain r4 e4 where g: "function_insert_sh i np e3 = (r4, e4)" by fastforce
        note g1 = function_insert_sh_cases [OF g]
        show ?thesis
        proof (cases r4)
          case (Throws x)
          then show ?thesis using assms eq r3 g g1 f1 l1 h1 t1 by (auto simp: and_then_sh_def)
        next
          case r4: (Returns it)
          then have "it = i" using g1 by auto
          then show ?thesis
            using assms eq r3 r4 g g1 f1 l1 h1 t1 i np
            by (auto simp: and_then_sh_def returns_sh_def)
        qed
      qed
    qed
  qed
qed

lemma quiet_set_value_try2:
  assumes it: "it < length (function_sh (this_sh e))"
  shows "quiet e (snd (set_value_try2_sh it prev_it at_end e))"
  unfolding set_value_try2_sh_def Let_def
proof (rule quiet_and_then)
  show "quiet e (snd ((if \<not> at_end
            then and_then_sh (may_throw_sh Comparison)
                   (\<lambda>_ e'. (Returns (\<not> comp_by_arg_sh (heap_sh e')
                       (function_sh (this_sh e) ! it) (function_sh (this_sh e) ! prev_it)), e'))
            else returns_sh False) e))"
    by (cases at_end) (auto simp: quiet_returns quiet_refl intro!: quiet_after_may_throw)
next
  fix d e1 assume q: "quiet e e1"
  then have lt: "it < length (function_sh (this_sh e1))" using it by (simp add: quiet_function)
  show "quiet e1 (snd (and_then_sh
          (update_maxima_exc_sh it (if d then prev_it else length (function_sh (this_sh e))))
          (\<lambda>_. returns_sh d) e1))"
    by (rule quiet_and_then, rule quiet_update_maxima_exc [OF lt], rule quiet_returns)
qed

lemma set_value_catch_sh_frame:
  "heap_sh (set_value_catch_sh it e) = heap_sh e
   \<and> nodes (this_sh (set_value_catch_sh it e)) \<subseteq> nodes (this_sh e)"
proof -
  have "set (case it of None \<Rightarrow> function_sh (this_sh e)
               | Some i \<Rightarrow> func_erase i (function_sh (this_sh e))) \<subseteq> set (function_sh (this_sh e))"
  proof (cases it)
    case None
    then show ?thesis by simp
  next
    case (Some i)
    then show ?thesis using set_func_erase [of i "function_sh (this_sh e)"] by simp
  qed
  then show ?thesis
    using set_erase_rollback_sh [of "maxima_rollback_sh e" "maxima_sh (this_sh e)"]
    by (auto simp: set_value_catch_sh_def Let_def nodes_def)
qed

lemma set_value_exc_sh_frame:
  "heap_sh (snd (set_value_exc_sh a v e0)) = heap_sh e0
     \<and> nodes (this_sh (snd (set_value_exc_sh a v e0))) \<subseteq> nodes (this_sh e0)
   \<or> heap_sh (snd (set_value_exc_sh a v e0)) = snd (make_point a v (heap_sh e0))
     \<and> nodes (this_sh (snd (set_value_exc_sh a v e0)))
         \<subseteq> insert (fst (make_point a v (heap_sh e0))) (nodes (this_sh e0))"
proof -
  define e0' where "e0' = e0\<lparr>maxima_rollback_sh := []\<rparr>"
  have h0: "heap_sh e0' = heap_sh e0" and t0: "this_sh e0' = this_sh e0" by (simp_all add: e0'_def)
  obtain r e where t: "set_value_try1_sh a v e0' = (r, e)" by fastforce
  from set_value_try1_sh_cases [OF t]
  consider (throws) x where "r = Throws x" "this_sh e = this_sh e0"
      "heap_sh e = heap_sh e0 \<or> heap_sh e = snd (make_point a v (heap_sh e0))"
    | (returns) i at_end pm where "r = Returns (i, Suc i, at_end, pm)"
        "i \<le> length (function_sh (this_sh e0))"
        "heap_sh e = snd (make_point a v (heap_sh e0))"
        "this_sh e = (this_sh e0)\<lparr>function_sh :=
                   func_insert i (fst (make_point a v (heap_sh e0))) (function_sh (this_sh e0))\<rparr>"
    unfolding h0 t0 by blast
  then show ?thesis
  proof cases
    case throws
    have "snd (set_value_exc_sh a v e0) = set_value_catch_sh None e"
      using t throws(1) by (simp add: set_value_exc_sh_def e0'_def)
    then show ?thesis using set_value_catch_sh_frame [of None e] throws(2,3) by auto
  next
    case returns
    have lt: "i < length (function_sh (this_sh e))"
      using returns(2,4) by (simp add: func_insert_def)
    have n: "nodes (this_sh e) \<subseteq> insert (fst (make_point a v (heap_sh e0))) (nodes (this_sh e0))"
      using set_func_insert [OF returns(2), of "fst (make_point a v (heap_sh e0))"]
      by (auto simp: returns(4) nodes_def)
    obtain r2 e2 where t2: "set_value_try2_sh i (Suc i) at_end e = (r2, e2)" by fastforce
    have "quiet e e2" using quiet_set_value_try2 [OF lt, of "Suc i" at_end] t2 by simp
    then have h2: "heap_sh e2 = heap_sh e" and n2: "nodes (this_sh e2) \<subseteq> nodes (this_sh e)"
      by (auto simp: quiet_def from_nodes_def nodes_def)
    have "heap_sh (snd (set_value_exc_sh a v e0)) = heap_sh e2
          \<and> nodes (this_sh (snd (set_value_exc_sh a v e0))) \<subseteq> nodes (this_sh e2)"
    proof (cases r2)
      case (Throws x)
      then have "snd (set_value_exc_sh a v e0) = set_value_catch_sh (Some i) e2"
        using t returns(1) t2 by (simp add: set_value_exc_sh_def e0'_def)
      then show ?thesis using set_value_catch_sh_frame [of "Some i" e2] by simp
    next
      case (Returns d)
      have "snd (set_value_exc_sh a v e0)
            = (if d then e2\<lparr>this_sh := \<lparr>function_sh = func_erase (Suc i) (function_sh (this_sh e2)),
                                        maxima_sh = mx_erase_sh pm (maxima_sh (this_sh e2))\<rparr>\<rparr>
               else e2)"
        using t returns(1) t2 Returns
        by (simp add: set_value_exc_sh_def e0'_def and_then_sh_def
              function_erase_sh_def maxima_erase_sh_def)
      then show ?thesis
        using set_func_erase [of "Suc i" "function_sh (this_sh e2)"]
          set_mx_erase_sh [of pm "maxima_sh (this_sh e2)"]
        by (auto simp: nodes_def)
    qed
    then show ?thesis using h2 n2 n returns(3) by auto
  qed
qed

subsection \<open>Calls on one object leave the others as they were\<close>

lemma well_formed_empty_world: "well_formed empty_world"
  by (simp add: well_formed_def empty_world_def nodes_def)

lemma observe_frame:
  assumes e: "extends (heap w) (heap w')"
    and a: "\<forall>n \<in> nodes (objects w q). allocated (heap w) n"
    and o: "objects w' q = objects w q"
  shows "observe w' q = observe w q"
proof -
  have "point_of (heap w') n = point_of (heap w) n" if "n \<in> nodes (objects w q)" for n
    using point_of_extends [OF e] a that by simp
  then show ?thesis by (simp add: observe_def o nodes_def)
qed

lemma call_exc_frame:
  fixes e0 :: "('a::linorder, 'v::linorder) exec_sh"
  assumes a: "\<forall>n \<in> nodes (this_sh e0). allocated (heap_sh e0) n"
  shows "extends (heap_sh e0) (heap_sh (snd (call_exc c e0)))
         \<and> (\<forall>n \<in> nodes (this_sh (snd (call_exc c e0))). allocated (heap_sh (snd (call_exc c e0))) n)"
proof (cases c)
  case (Set_value x v)
  have ext: "extends (heap_sh e0) (snd (make_point x v (heap_sh e0)))" by (rule extends_make_point)
  have old: "\<forall>n \<in> nodes (this_sh e0). allocated (snd (make_point x v (heap_sh e0))) n"
    using a allocated_extends [OF ext] by blast
  show ?thesis
    using set_value_exc_sh_frame [of x v e0] a old ext extends_refl [of "heap_sh e0"]
      allocated_make_point [of x v "heap_sh e0"]
    unfolding Set_value call_exc.simps by (elim disjE conjE) auto
next
  case (Erase x)
  show ?thesis
    using erase_exc_sh_frame [of x e0] a extends_refl [of "heap_sh e0"]
    unfolding Erase call_exc.simps by auto
qed

lemma call_on_frame:
  fixes w :: "('a::linorder, 'v::linorder) world"
  assumes wf: "well_formed w"
  shows "well_formed (call_on p w ck) \<and> extends (heap w) (heap (call_on p w ck))
         \<and> (\<forall>q. q \<noteq> p \<longrightarrow> objects (call_on p w ck) q = objects w q)"
proof -
  define e where "e = snd (call_exc (fst ck) (start_sh w p (snd ck)))"
  have eq: "call_on p w ck = \<lparr>heap = heap_sh e, objects = (objects w)(p := this_sh e)\<rparr>"
    by (simp add: call_on_def e_def Let_def)
  have "\<forall>n \<in> nodes (this_sh (start_sh w p (snd ck))). allocated (heap_sh (start_sh w p (snd ck))) n"
    using wf by (simp add: well_formed_def start_sh_def)
  from call_exc_frame [OF this, of "fst ck"]
  have ext: "extends (heap w) (heap_sh e)" and new: "\<forall>n \<in> nodes (this_sh e). allocated (heap_sh e) n"
    by (simp_all add: e_def [symmetric]) (simp add: start_sh_def)
  have old: "allocated (heap_sh e) n" if "n \<in> nodes (objects w q)" for n q
    using wf that allocated_extends [OF ext] by (auto simp: well_formed_def)
  have "well_formed (call_on p w ck)"
    unfolding eq well_formed_def using old new by simp
  then show ?thesis using ext by (simp add: eq)
qed

lemma calls_on_frame:
  fixes w :: "('a::linorder, 'v::linorder) world"
  assumes "well_formed w"
  shows "well_formed (calls_on p cks w) \<and> extends (heap w) (heap (calls_on p cks w))
         \<and> (\<forall>q. q \<noteq> p \<longrightarrow> objects (calls_on p cks w) q = objects w q)"
  using assms
proof (induction cks arbitrary: w)
  case Nil
  then show ?case by (simp add: calls_on_def extends_refl)
next
  case (Cons c cs)
  have 1: "well_formed (call_on p w c)" "extends (heap w) (heap (call_on p w c))"
    "\<forall>q. q \<noteq> p \<longrightarrow> objects (call_on p w c) q = objects w q"
    using call_on_frame [OF Cons.prems, of p c] by simp_all
  have 2: "well_formed (calls_on p cs (call_on p w c))"
    "extends (heap (call_on p w c)) (heap (calls_on p cs (call_on p w c)))"
    "\<forall>q. q \<noteq> p \<longrightarrow> objects (calls_on p cs (call_on p w c)) q = objects (call_on p w c) q"
    using Cons.IH [OF 1(1)] by simp_all
  have eq: "calls_on p (c # cs) w = calls_on p cs (call_on p w c)"
    by (simp add: calls_on_def)
  show ?case unfolding eq using 1(3) 2(1,3) extends_trans [OF 1(2) 2(2)] by simp
qed

lemma observe_calls_on_other:
  fixes w :: "('a::linorder, 'v::linorder) world"
  assumes wf: "well_formed w" and q: "q \<noteq> p"
  shows "observe (calls_on p cks w) q = observe w q"
proof (rule observe_frame)
  show "extends (heap w) (heap (calls_on p cks w))" using calls_on_frame [OF wf] by simp
  show "\<forall>n \<in> nodes (objects w q). allocated (heap w) n" using wf by (simp add: well_formed_def)
  show "objects (calls_on p cks w) q = objects w q" using calls_on_frame [OF wf, of p cks] q by simp
qed

lemma copied_object:
  "\<lparr>function_sh = function_sh s, maxima_sh = maxima_sh s\<rparr> = s"
  "t\<lparr>function_sh := function_sh s, maxima_sh := maxima_sh s\<rparr> = s"
  by (cases s, cases t, simp)+

lemma assign_cases:
  "assign this_p fun_p k w =
     (if this_p = fun_p then (Returns (), w)
      else if k = Some 0 \<or> k = Some 1 then (Throws (Propagated Multiset_copy), w)
      else (Returns (), w\<lparr>objects := (objects w)(this_p := objects w fun_p)\<rparr>))"
  by (auto simp: assign_def Let_def copied_object split: option.splits nat.splits)

lemma construct_copy_at_cases:
  "construct_copy_at new_p fun_p k w =
     (if k = Some 0 \<or> k = Some 1 then (Throws (Propagated Multiset_copy), w)
      else (Returns (), w\<lparr>objects := (objects w)(new_p := objects w fun_p)\<rparr>))"
  by (auto simp: construct_copy_at_def copied_object split: option.splits nat.splits)

lemma well_formed_copy:
  "well_formed w \<Longrightarrow> well_formed (w\<lparr>objects := (objects w)(p := objects w q)\<rparr>)"
  by (simp add: well_formed_def)

lemma observe_copy:
  "observe (w\<lparr>objects := (objects w)(p := objects w q)\<rparr>) r = observe w (if r = p then q else r)"
  by (simp add: observe_def)

lemma well_formed_assign: "well_formed w \<Longrightarrow> well_formed (snd (assign this_p fun_p k w))"
  by (simp add: assign_cases well_formed_copy)

lemma well_formed_construct_copy_at:
  "well_formed w \<Longrightarrow> well_formed (snd (construct_copy_at new_p fun_p k w))"
  by (simp add: construct_copy_at_cases well_formed_copy)

text \<open>
  C9 (copies). The points of a copy share their arguments and values with the points of
  the source. For two different objects of a world in which every pointer of every
  object refers to an allocated object, copy assignment and copy construction either
  throw and leave the world as it was, so that the target of a failed assignment is
  unchanged, or return, and then the target holds the pointers of the source, what the
  target shows (both listings, hence \<open>size()\<close> and \<open>value_at\<close>) is what the source
  showed, and the source shows what it did; whatever calls of \<open>set_value\<close> and \<open>erase\<close>
  are made afterwards on one of the two objects, and whether they return or throw, the
  other shows what the source showed at the copy. Without a throwing allocation both
  copies return.
\<close>

theorem copy_independent_assignment_atomic:
  fixes w :: "('a::linorder, 'v::linorder) world"
  assumes wf: "well_formed w" and ne: "this_p \<noteq> fun_p"
  shows "(fst (assign this_p fun_p k w) \<noteq> Returns () \<longrightarrow> snd (assign this_p fun_p k w) = w)
       \<and> (fst (assign this_p fun_p k w) = Returns () \<longrightarrow>
            objects (snd (assign this_p fun_p k w)) this_p = objects w fun_p
          \<and> observe (snd (assign this_p fun_p k w)) this_p = observe w fun_p
          \<and> observe (snd (assign this_p fun_p k w)) fun_p = observe w fun_p
          \<and> (\<forall>cks. observe (calls_on fun_p cks (snd (assign this_p fun_p k w))) this_p
                    = observe w fun_p
                  \<and> observe (calls_on this_p cks (snd (assign this_p fun_p k w))) fun_p
                    = observe w fun_p))
       \<and> fst (assign this_p fun_p None w) = Returns ()
       \<and> (fst (construct_copy_at this_p fun_p k w) \<noteq> Returns () \<longrightarrow>
            snd (construct_copy_at this_p fun_p k w) = w)
       \<and> (fst (construct_copy_at this_p fun_p k w) = Returns () \<longrightarrow>
            objects (snd (construct_copy_at this_p fun_p k w)) this_p = objects w fun_p
          \<and> observe (snd (construct_copy_at this_p fun_p k w)) this_p = observe w fun_p
          \<and> observe (snd (construct_copy_at this_p fun_p k w)) fun_p = observe w fun_p
          \<and> (\<forall>cks. observe (calls_on fun_p cks (snd (construct_copy_at this_p fun_p k w))) this_p
                    = observe w fun_p
                  \<and> observe (calls_on this_p cks (snd (construct_copy_at this_p fun_p k w))) fun_p
                    = observe w fun_p))
       \<and> fst (construct_copy_at this_p fun_p None w) = Returns ()"
proof -
  define w' where "w' = w\<lparr>objects := (objects w)(this_p := objects w fun_p)\<rparr>"
  have wf': "well_formed w'" unfolding w'_def by (rule well_formed_copy [OF wf])
  have o1: "observe w' this_p = observe w fun_p" and o2: "observe w' fun_p = observe w fun_p"
    using ne by (simp_all add: w'_def observe_copy)
  have ne': "fun_p \<noteq> this_p" using ne by simp
  have ind: "observe (calls_on fun_p cks w') this_p = observe w fun_p
           \<and> observe (calls_on this_p cks w') fun_p = observe w fun_p" for cks
    using observe_calls_on_other [OF wf' ne, of cks] observe_calls_on_other [OF wf' ne', of cks] o1 o2
    by simp
  have ob: "objects w' this_p = objects w fun_p" by (simp add: w'_def)
  have a: "assign this_p fun_p k w
           = (if k = Some 0 \<or> k = Some 1 then (Throws (Propagated Multiset_copy), w)
              else (Returns (), w'))"
    using ne by (simp add: assign_cases w'_def)
  have c: "construct_copy_at this_p fun_p k w
           = (if k = Some 0 \<or> k = Some 1 then (Throws (Propagated Multiset_copy), w)
              else (Returns (), w'))"
    by (simp add: construct_copy_at_cases w'_def)
  have a0: "fst (assign this_p fun_p None w) = Returns ()" by (simp add: assign_cases)
  have c0: "fst (construct_copy_at this_p fun_p None w) = Returns ()"
    by (simp add: construct_copy_at_cases)
  show ?thesis unfolding a c using o1 o2 ind ob a0 c0 by simp
qed

theorem copy_independent_assignment_atomic_witness:
  "well_formed example_world \<and> (1::nat) \<noteq> 0
   \<and> fst (assign 1 0 None example_world) = Returns ()
   \<and> objects (snd (assign 1 0 None example_world)) 1 = objects example_world 0
   \<and> observe (snd (assign 1 0 None example_world)) 1 = run [Set_value 1 5, Set_value 2 3]
   \<and> fst (call_exc (Set_value 3 1) (start_sh (snd (assign 1 0 None example_world)) 1 (Some 5)))
       = Throws (Propagated Multiset_call)
   \<and> observe (calls_on 1 [(Set_value 3 1, Some 5), (Set_value 2 9, None), (Erase 1, None)]
                (snd (assign 1 0 None example_world))) 0
       = run [Set_value 1 5, Set_value 2 3]
   \<and> observe (calls_on 1 [(Set_value 3 1, Some 5), (Set_value 2 9, None), (Erase 1, None)]
                (snd (assign 1 0 None example_world))) 1
       = run [Set_value 1 5, Set_value 2 3, Set_value 2 9, Erase 1]
   \<and> snd (assign 1 0 (Some 1) example_world) = example_world"
proof -
  have wf: "well_formed example_world"
    unfolding example_world_def using calls_on_frame [OF well_formed_empty_world] by blast
  have ne: "(1::nat) \<noteq> 0" by simp
  have r: "fst (assign 1 0 None example_world) = Returns ()"
    and t: "fst (assign 1 0 (Some 1) example_world) \<noteq> Returns ()"
    by (simp_all add: assign_cases)
  have o: "observe example_world 0 = run [Set_value 1 5, Set_value 2 3]"
    by code_simp
  have x: "fst (call_exc (Set_value 3 1) (start_sh (snd (assign 1 0 None example_world)) 1 (Some 5)))
       = Throws (Propagated Multiset_call)"
    by code_simp
  have m: "observe (calls_on 1 [(Set_value 3 1, Some 5), (Set_value 2 9, None), (Erase 1, None)]
                (snd (assign 1 0 None example_world))) 1
       = run [Set_value 1 5, Set_value 2 3, Set_value 2 9, Erase 1]"
    by code_simp
  show ?thesis
    using copy_independent_assignment_atomic [OF wf ne, of None]
      copy_independent_assignment_atomic [OF wf ne, of "Some 1"] r t o x m wf
    by simp
qed

end
